theory Spec2Isabelle
  imports Main "HOL-Library.Multiset"
begin

section \<open>The array-backed min-heap of heap.h\<close>

text \<open>
  The class \<^verbatim>\<open>Heap\<close> stores pairs of ints in a raw array \<^verbatim>\<open>A\<close> allocated with
  \<^verbatim>\<open>new Pair[n]\<close>, together with two int fields \<^verbatim>\<open>hCapacity\<close> and \<^verbatim>\<open>hSize\<close>.
  The model keeps the three fields in a record. The array is a list whose length is the
  number of allocated slots. Elements and priorities are only copied and compared, so they
  are plain integers. Sizes and indices are integers too, with \<^verbatim>\<open>int\<close> taken to be 32 bits
  wide; the arithmetic that can leave this range is checked where it happens:
  \<^verbatim>\<open>(2 * i) + 1\<close> and \<^verbatim>\<open>(2 * i) + 2\<close> in \<^verbatim>\<open>trickleDown\<close>, \<^verbatim>\<open>s + c\<close> in the constructor
  from two arrays, \<^verbatim>\<open>Heap1.hSize + Heap2.hSize\<close> and \<^verbatim>\<open>hSize + c\<close> in the merging
  constructor. The other operations stay in range once the array accesses next to them
  are inside the array: \<^verbatim>\<open>hSize++\<close> after the store to \<^verbatim>\<open>A[hSize]\<close>, \<^verbatim>\<open>hSize - 1\<close> and
  \<^verbatim>\<open>hSize--\<close> with the read of \<^verbatim>\<open>A[hSize - 1]\<close>, \<^verbatim>\<open>(i - 1) / 2\<close> with the read of
  \<^verbatim>\<open>A[i]\<close>.

  C++ has no checked array access. An access outside the allocated slots, and an
  arithmetic overflow of a signed int, are undefined behaviour: the program reports nothing
  to its caller. The model makes both visible as the results \<open>Inl OutOfBounds\<close> and
  \<open>Inl SignedOverflow\<close>. The only failure the source can really report is the exception
  of an array allocation with a negative length, \<open>Inl BadArrayNewLength\<close>.
  The three remaining error kinds are the ones the specification names; no path of the
  source produces them.

  Storage that the source never initialises is a parameter of the model: the contents
  \<open>junk\<close> of a freshly allocated array, and the value \<open>hSize0\<close> of the \<^verbatim>\<open>hSize\<close> field
  in the one constructor that does not assign it.
\<close>

datatype error =
    BadArrayNewLength
  | OutOfBounds
  | SignedOverflow
  | InvalidArgument
  | EmptyContainer
  | CapacityExceeded

record Pair =
  element :: int
  priority :: int

record Heap =
  A :: "Pair list"
  hCapacity :: int
  hSize :: int

definition INT_MAX :: int where
  \<comment> \<open>The largest and the smallest value of a 32-bit \<^verbatim>\<open>int\<close>.\<close>
  "INT_MAX = 2147483647"

definition INT_MIN :: int where
  "INT_MIN = - 2147483648"

definition c_div :: "int \<Rightarrow> int \<Rightarrow> int" where
  \<comment> \<open>The division of C++ on ints: the quotient is truncated towards zero.\<close>
  "c_div a b = (if (a < 0) = (b < 0) then \<bar>a\<bar> div \<bar>b\<bar> else - (\<bar>a\<bar> div \<bar>b\<bar>))"

definition in_bounds :: "Heap \<Rightarrow> int \<Rightarrow> bool" where
  \<comment> \<open>\<^verbatim>\<open>A[i]\<close> is an allocated slot.\<close>
  "in_bounds h i \<longleftrightarrow> 0 \<le> i \<and> i < int (length (A h))"

definition new_Pairs :: "(nat \<Rightarrow> Pair) \<Rightarrow> int \<Rightarrow> error + Pair list" where
  \<comment> \<open>\<^verbatim>\<open>new Pair[n]\<close>: \<^verbatim>\<open>Pair\<close> has no constructor, so the slots hold indeterminate values,
      given here by \<open>junk\<close>; a negative length throws.\<close>
  "new_Pairs junk n = (if n < 0 then Inl BadArrayNewLength else Inr (map junk [0..<nat n]))"

subsection \<open>The private helpers\<close>

definition swap :: "Heap \<Rightarrow> int \<Rightarrow> int \<Rightarrow> error + Heap" where
  \<comment> \<open>\<^verbatim>\<open>Pair temp = A[i]; A[i] = A[j]; A[j] = temp;\<close>\<close>
  "swap h i j =
     (if \<not> in_bounds h i \<or> \<not> in_bounds h j then Inl OutOfBounds
      else
        let temp = A h ! nat i;
            h1 = h\<lparr>A := (A h)[nat i := A h ! nat j]\<rparr>
        in Inr (h1\<lparr>A := (A h1)[nat j := temp]\<rparr>))"

function trickleUp :: "Heap \<Rightarrow> int \<Rightarrow> error + Heap" where
  \<comment> \<open>\<^verbatim>\<open>i == 0\<close> is tested first; only then are \<^verbatim>\<open>A[i]\<close> and \<^verbatim>\<open>A[(i-1) / 2]\<close> read.\<close>
  "trickleUp h i =
     (if i = 0 then Inr h
      else if \<not> in_bounds h i \<or> \<not> in_bounds h (c_div (i - 1) 2) then Inl OutOfBounds
      else if priority (A h ! nat i) \<ge> priority (A h ! nat (c_div (i - 1) 2)) then Inr h
      else
        (case swap h i (c_div (i - 1) 2) of
           Inl e \<Rightarrow> Inl e
         | Inr h' \<Rightarrow> trickleUp h' (c_div (i - 1) 2)))"
  by pat_completeness auto
termination
  by (relation "measure (\<lambda>(h, i). nat i)")
     (auto simp: in_bounds_def c_div_def split: if_splits)

function trickleDown :: "Heap \<Rightarrow> int \<Rightarrow> error + Heap" where
  \<comment> \<open>\<^verbatim>\<open>left\<close> and \<^verbatim>\<open>right\<close> are computed before any test, hence the range check
      in the first line. The second condition of the source,
      \<^verbatim>\<open>right > hSize - 1 && A[i].priority > A[left].priority\<close>, reads the array only when
      \<^verbatim>\<open>right > hSize - 1\<close>; when the comparison then fails, the third condition
      \<^verbatim>\<open>left < hSize && right < hSize\<close> fails too and the function returns. In the third
      branch all of \<^verbatim>\<open>A[i]\<close>, \<^verbatim>\<open>A[left]\<close>, \<^verbatim>\<open>A[right]\<close> are read on every path.\<close>
  "trickleDown h i =
     (if 2 * i < INT_MIN \<or> INT_MAX < 2 * i + 2 then Inl SignedOverflow
      else
        let left = 2 * i + 1;
            right = 2 * i + 2
        in
          if left > hSize h - 1 \<and> right > hSize h - 1 then Inr h
          else if right > hSize h - 1 then
            (if \<not> in_bounds h i \<or> \<not> in_bounds h left then Inl OutOfBounds
             else if priority (A h ! nat i) > priority (A h ! nat left) then swap h i left
             else Inr h)
          else if left < hSize h \<and> right < hSize h then
            (if \<not> in_bounds h i \<or> \<not> in_bounds h left \<or> \<not> in_bounds h right
             then Inl OutOfBounds
             else if priority (A h ! nat i) \<le> priority (A h ! nat left)
                   \<and> priority (A h ! nat i) \<le> priority (A h ! nat right) then Inr h
             else if priority (A h ! nat left) > priority (A h ! nat right) then
               (case swap h i right of
                  Inl e \<Rightarrow> Inl e
                | Inr h' \<Rightarrow> trickleDown h' right)
             else
               (case swap h i left of
                  Inl e \<Rightarrow> Inl e
                | Inr h' \<Rightarrow> trickleDown h' left))
          else Inr h)"
  by pat_completeness auto
termination
  by (relation "measure (\<lambda>(h, i). nat (hSize h - i))")
     (auto simp: swap_def Let_def split: if_splits)

function heapify_loop :: "Heap \<Rightarrow> int \<Rightarrow> error + Heap" where
  \<comment> \<open>\<^verbatim>\<open>for ( ; i >= 0; i--) trickleDown(i);\<close>\<close>
  "heapify_loop h i =
     (if i \<ge> 0 then
        (case trickleDown h i of
           Inl e \<Rightarrow> Inl e
         | Inr h' \<Rightarrow> heapify_loop h' (i - 1))
      else Inr h)"
  by pat_completeness auto
termination
  by (relation "measure (\<lambda>(h, i). nat (i + 1))") auto

definition heapify :: "Heap \<Rightarrow> error + Heap" where
  \<comment> \<open>The loop starts at \<^verbatim>\<open>(hSize / 2) - 1\<close>.\<close>
  "heapify h = heapify_loop h (c_div (hSize h) 2 - 1)"

subsection \<open>Accessors\<close>

definition empty_heap :: "Heap \<Rightarrow> bool" where
  "empty_heap h \<longleftrightarrow> hSize h = 0"

definition size_heap :: "Heap \<Rightarrow> int" where
  "size_heap h = hSize h"

definition capacity :: "Heap \<Rightarrow> int" where
  "capacity h = hCapacity h"

definition peekMin :: "Heap \<Rightarrow> error + int" where
  \<comment> \<open>\<^verbatim>\<open>return A[0].element\<close>, whatever \<^verbatim>\<open>hSize\<close> is.\<close>
  "peekMin h = (if in_bounds h 0 then Inr (element (A h ! 0)) else Inl OutOfBounds)"

definition peekMinPriority :: "Heap \<Rightarrow> error + int" where
  "peekMinPriority h = (if in_bounds h 0 then Inr (priority (A h ! 0)) else Inl OutOfBounds)"

subsection \<open>Modifiers\<close>

definition insert_heap :: "Heap \<Rightarrow> int \<Rightarrow> int \<Rightarrow> error + Heap" where
  \<comment> \<open>The two stores into \<^verbatim>\<open>A[hSize]\<close> come first, and nothing compares \<^verbatim>\<open>hSize\<close> with
      \<^verbatim>\<open>hCapacity\<close>. After an in-bounds store \<^verbatim>\<open>hSize\<close> is below the array length, so
      \<^verbatim>\<open>hSize++\<close> stays in range.\<close>
  "insert_heap h e p =
     (if \<not> in_bounds h (hSize h) then Inl OutOfBounds
      else
        let h1 = h\<lparr>A := (A h)[nat (hSize h) := \<lparr>element = e, priority = p\<rparr>]\<rparr>
        in
          (case trickleUp h1 (hSize h1) of
             Inl err \<Rightarrow> Inl err
           | Inr h2 \<Rightarrow> Inr (h2\<lparr>hSize := hSize h2 + 1\<rparr>)))"

definition extractMin :: "Heap \<Rightarrow> error + (int \<times> Heap)" where
  \<comment> \<open>Reads \<^verbatim>\<open>A[0]\<close> and \<^verbatim>\<open>A[hSize - 1]\<close> without looking at \<^verbatim>\<open>hSize\<close> first.\<close>
  "extractMin h =
     (if \<not> in_bounds h 0 \<or> \<not> in_bounds h (hSize h - 1) then Inl OutOfBounds
      else
        let m = element (A h ! 0);
            h1 = h\<lparr>A := (A h)[0 := A h ! nat (hSize h - 1)]\<rparr>;
            h2 = h1\<lparr>hSize := hSize h1 - 1\<rparr>
        in
          (case trickleDown h2 0 of
             Inl err \<Rightarrow> Inl err
           | Inr h3 \<Rightarrow> Inr (m, h3)))"

subsection \<open>Constructors\<close>

definition int_range :: "int \<Rightarrow> bool" where
  "int_range x \<longleftrightarrow> INT_MIN \<le> x \<and> x \<le> INT_MAX"

definition Heap_default :: "(nat \<Rightarrow> Pair) \<Rightarrow> error + Heap" where
  \<comment> \<open>\<^verbatim>\<open>Heap()\<close>: capacity 10, size 0.\<close>
  "Heap_default junk =
     (case new_Pairs junk 10 of
        Inl err \<Rightarrow> Inl err
      | Inr a \<Rightarrow> Inr \<lparr>A = a, hCapacity = 10, hSize = 0\<rparr>)"

definition Heap_c :: "(nat \<Rightarrow> Pair) \<Rightarrow> int \<Rightarrow> error + Heap" where
  \<comment> \<open>\<^verbatim>\<open>Heap(int c)\<close>: the allocation is the only thing that can fail.\<close>
  "Heap_c junk c =
     (case new_Pairs junk c of
        Inl err \<Rightarrow> Inl err
      | Inr a \<Rightarrow> Inr \<lparr>A = a, hCapacity = c, hSize = 0\<rparr>)"

function arrays_loop :: "int list \<Rightarrow> int list \<Rightarrow> int \<Rightarrow> int \<Rightarrow> Heap \<Rightarrow> error + Heap" where
  \<comment> \<open>\<^verbatim>\<open>for (int i = 0; i < s; i++) insert(Elements[i], Priorities[i])\<close>; the two input
      arrays are lists, and a read past their end is out of bounds.\<close>
  "arrays_loop Priorities Elements s i h =
     (if i < s then
        (if \<not> (0 \<le> i \<and> i < int (length Elements)) \<or> \<not> (0 \<le> i \<and> i < int (length Priorities))
         then Inl OutOfBounds
         else
           (case insert_heap h (Elements ! nat i) (Priorities ! nat i) of
              Inl err \<Rightarrow> Inl err
            | Inr h' \<Rightarrow> arrays_loop Priorities Elements s (i + 1) h'))
      else Inr h)"
  by pat_completeness auto
termination
  by (relation "measure (\<lambda>(Priorities, Elements, s, i, h). nat (s - i))") auto

definition Heap_arrays ::
  "(nat \<Rightarrow> Pair) \<Rightarrow> int \<Rightarrow> int list \<Rightarrow> int list \<Rightarrow> int \<Rightarrow> int \<Rightarrow> error + Heap" where
  \<comment> \<open>This constructor has no \<^verbatim>\<open>hSize = 0\<close>: the field keeps the indeterminate value
      \<open>hSize0\<close> it had when the object's storage was obtained, and the first
      \<^verbatim>\<open>insert\<close> stores at that index.\<close>
  "Heap_arrays junk hSize0 Priorities Elements s c =
     (if \<not> int_range (s + c) then Inl SignedOverflow
      else
        (case new_Pairs junk (s + c) of
           Inl err \<Rightarrow> Inl err
         | Inr a \<Rightarrow>
             arrays_loop Priorities Elements s 0 \<lparr>A = a, hCapacity = s + c, hSize = hSize0\<rparr>))"

definition copy_Pairs :: "Pair list \<Rightarrow> int \<Rightarrow> Pair list \<Rightarrow> int \<Rightarrow> error + Pair list" where
  \<comment> \<open>\<^verbatim>\<open>std::copy(src, src + n, dst + off)\<close>: the range must lie inside the source array
      and its image inside the destination array.\<close>
  "copy_Pairs src n dst off =
     (if n < 0 \<or> int (length src) < n \<or> off < 0 \<or> int (length dst) < off + n
      then Inl OutOfBounds
      else Inr (take (nat off) dst @ take (nat n) src @ drop (nat (off + n)) dst))"

definition Heap_merge :: "(nat \<Rightarrow> Pair) \<Rightarrow> Heap \<Rightarrow> Heap \<Rightarrow> int \<Rightarrow> error + Heap" where
  \<comment> \<open>\<^verbatim>\<open>Heap(const Heap & Heap1, const Heap & Heap2, int c)\<close>: the two sums, the
      allocation, the two copies into the new array, then \<^verbatim>\<open>heapify()\<close>.\<close>
  "Heap_merge junk Heap1 Heap2 c =
     (if \<not> int_range (hSize Heap1 + hSize Heap2) then Inl SignedOverflow
      else if \<not> int_range (hSize Heap1 + hSize Heap2 + c) then Inl SignedOverflow
      else
        let s = hSize Heap1 + hSize Heap2;
            cap = s + c
        in
          (case new_Pairs junk cap of
             Inl err \<Rightarrow> Inl err
           | Inr a \<Rightarrow>
               (case copy_Pairs (A Heap1) (hSize Heap1) a 0 of
                  Inl err \<Rightarrow> Inl err
                | Inr a1 \<Rightarrow>
                    (case copy_Pairs (A Heap2) (hSize Heap2) a1 (hSize Heap1) of
                       Inl err \<Rightarrow> Inl err
                     | Inr a2 \<Rightarrow> heapify \<lparr>A = a2, hCapacity = cap, hSize = s\<rparr>))))"

subsection \<open>Sequences of calls\<close>

fun insert_all :: "Heap \<Rightarrow> (int \<times> int) list \<Rightarrow> error + Heap" where
  \<comment> \<open>\<^verbatim>\<open>insert(e, p)\<close> for each (element, priority) pair of the list, in order.\<close>
  "insert_all h [] = Inr h"
| "insert_all h ((e, p) # xs) =
     (case insert_heap h e p of
        Inl err \<Rightarrow> Inl err
      | Inr h' \<Rightarrow> insert_all h' xs)"

fun extract_n :: "nat \<Rightarrow> Heap \<Rightarrow> error + (int list \<times> Heap)" where
  \<comment> \<open>\<open>n\<close> calls of \<^verbatim>\<open>extractMin\<close>; the returned elements in the order of the calls.\<close>
  "extract_n 0 h = Inr ([], h)"
| "extract_n (Suc n) h =
     (case extractMin h of
        Inl err \<Rightarrow> Inl err
      | Inr (m, h') \<Rightarrow>
          (case extract_n n h' of
             Inl err \<Rightarrow> Inl err
           | Inr (ms, h'') \<Rightarrow> Inr (m # ms, h'')))"

text \<open>The recursive equations are unfolded by hand, one call at a time.\<close>

declare trickleUp.simps [simp del]
declare trickleDown.simps [simp del]
declare heapify_loop.simps [simp del]
declare arrays_loop.simps [simp del]

subsection \<open>Well-formed heaps and the heap order\<close>

definition parent :: "int \<Rightarrow> int" where
  "parent i = (i - 1) div 2"

definition wf_heap :: "Heap \<Rightarrow> bool" where
  \<comment> \<open>The size invariant, with the capacity field equal to the number of allocated slots.\<close>
  "wf_heap h \<longleftrightarrow> 0 \<le> hSize h \<and> hSize h \<le> hCapacity h \<and> hCapacity h = int (length (A h))"

definition heap_order :: "Heap \<Rightarrow> bool" where
  "heap_order h \<longleftrightarrow>
     (\<forall>i \<in> {1..<hSize h}. priority (A h ! nat i) \<ge> priority (A h ! nat ((i - 1) div 2)))"

definition entries :: "Heap \<Rightarrow> Pair list" where
  \<comment> \<open>The valid entries \<^verbatim>\<open>A[0] .. A[hSize - 1]\<close>.\<close>
  "entries h = take (nat (hSize h)) (A h)"

subsection \<open>Auxiliary notions for the proofs\<close>

definition pri :: "Heap \<Rightarrow> int \<Rightarrow> int" where
  \<comment> \<open>\<^verbatim>\<open>A[i].priority\<close>\<close>
  "pri h i = priority (A h ! nat i)"

definition ok_from :: "int \<Rightarrow> int \<Rightarrow> Heap \<Rightarrow> bool" where
  \<comment> \<open>Among the first \<open>n\<close> slots, every node whose parent has index at least \<open>k\<close> is
      no smaller than its parent.\<close>
  "ok_from k n h \<longleftrightarrow> (\<forall>j. 1 \<le> j \<and> j < n \<and> k \<le> parent j \<longrightarrow> pri h (parent j) \<le> pri h j)"

definition up_inv :: "int \<Rightarrow> Heap \<Rightarrow> int \<Rightarrow> bool" where
  \<comment> \<open>The order holds among the first \<open>n\<close> slots except between \<open>i\<close> and its parent,
      and the children of \<open>i\<close> are no smaller than the parent of \<open>i\<close>.\<close>
  "up_inv n h i \<longleftrightarrow>
     (\<forall>j. 1 \<le> j \<and> j < n \<and> j \<noteq> i \<longrightarrow> pri h (parent j) \<le> pri h j) \<and>
     (\<forall>j. 1 \<le> j \<and> j < n \<and> parent j = i \<and> 1 \<le> i \<longrightarrow> pri h (parent i) \<le> pri h j)"

definition down_inv :: "int \<Rightarrow> Heap \<Rightarrow> int \<Rightarrow> bool" where
  \<comment> \<open>The order holds below index \<open>k\<close> except between \<open>i\<close> and its children, and the
      children of \<open>i\<close> are no smaller than the parent of \<open>i\<close>.\<close>
  "down_inv k h i \<longleftrightarrow>
     (\<forall>j. 1 \<le> j \<and> j < hSize h \<and> k \<le> parent j \<and> parent j \<noteq> i \<longrightarrow> pri h (parent j) \<le> pri h j) \<and>
     (\<forall>j. 1 \<le> j \<and> j < hSize h \<and> parent j = i \<and> 1 \<le> i \<and> k \<le> parent i
          \<longrightarrow> pri h (parent i) \<le> pri h j)"

definition mk_Pair :: "int \<times> int \<Rightarrow> Pair" where
  "mk_Pair x = \<lparr>element = fst x, priority = snd x\<rparr>"

definition un_Pair :: "Pair \<Rightarrow> int \<times> int" where
  "un_Pair y = (element y, priority y)"

function ancestors :: "int \<Rightarrow> int list" where
  \<comment> \<open>The proper ancestors of node \<open>i\<close>: its parent, the parent's parent, up to the root.\<close>
  "ancestors i = (if i \<le> 0 then [] else parent i # ancestors (parent i))"
  by pat_completeness auto
termination
  by (relation "measure nat") (auto simp: parent_def)

declare ancestors.simps [simp del]

inductive reachable :: "Heap \<Rightarrow> bool" where
  \<comment> \<open>The heaps obtained by valid operations from a constructor that sets \<^verbatim>\<open>hSize\<close>; the
      constructor from two arrays is included for the runs in which its \<^verbatim>\<open>hSize\<close> field
      happens to start at 0.\<close>
  from_default: "Heap_default junk = Inr h \<Longrightarrow> reachable h"
| from_capacity: "Heap_c junk c = Inr h \<Longrightarrow> reachable h"
| from_arrays: "Heap_arrays junk 0 Priorities Elements s c = Inr h \<Longrightarrow> reachable h"
| from_merge: "reachable h1 \<Longrightarrow> reachable h2 \<Longrightarrow> Heap_merge junk h1 h2 c = Inr h \<Longrightarrow> reachable h"
| by_insert: "reachable h \<Longrightarrow> hSize h < hCapacity h \<Longrightarrow> insert_heap h e p = Inr h'
              \<Longrightarrow> reachable h'"
| by_extractMin: "reachable h \<Longrightarrow> 0 < hSize h \<Longrightarrow> extractMin h = Inr (m, h')
              \<Longrightarrow> reachable h'"

subsection \<open>Concrete storage contents for the example runs\<close>

definition zero_junk :: "nat \<Rightarrow> Pair" where
  \<comment> \<open>Fresh storage that happens to be all zero.\<close>
  "zero_junk = (\<lambda>k. \<lparr>element = 0, priority = 0\<rparr>)"

definition junk_5_3 :: "nat \<Rightarrow> Pair" where
  \<comment> \<open>Fresh storage that happens to hold priority 5 in slot 0 and priority 3 elsewhere.\<close>
  "junk_5_3 = (\<lambda>k. \<lparr>element = 0, priority = (if k = 0 then 5 else 3)\<rparr>)"

subsection \<open>A heap beyond the range of the index arithmetic\<close>

definition big_pairs :: "(int \<times> int) list" where
  \<comment> \<open>The \<open>2^30 + 2\<close> pairs (0, 0), (1, 1), ..., each with its element as priority.\<close>
  "big_pairs = map (\<lambda>k. (k, k)) [0..1073741825]"

definition big_empty :: Heap where
  \<comment> \<open>The empty heap that \<^verbatim>\<open>Heap(1073741826)\<close> builds on storage that is all zero.\<close>
  "big_empty = \<lparr>A = map zero_junk [0..<1073741826], hCapacity = 1073741826, hSize = 0\<rparr>"

definition big_full :: Heap where
  \<comment> \<open>The heap with the pairs of \<open>big_pairs\<close> in slot order.\<close>
  "big_full = \<lparr>A = map mk_Pair big_pairs, hCapacity = 1073741826, hSize = 1073741826\<rparr>"

definition big_first :: Heap where
  \<comment> \<open>The full heap of capacity \<open>2^30\<close> whose slot \<open>k\<close> holds the pair (k, k).\<close>
  "big_first = \<lparr>A = map (\<lambda>k. mk_Pair (k, k)) [0..1073741823],
                 hCapacity = 1073741824, hSize = 1073741824\<rparr>"

lemma c_div_2: "0 \<le> a \<Longrightarrow> c_div a 2 = a div 2"
  by (simp add: c_div_def)

lemma c_div_parent: "1 \<le> i \<Longrightarrow> c_div (i - 1) 2 = parent i"
  by (simp add: c_div_2 parent_def)

lemma parent_less: "1 \<le> i \<Longrightarrow> parent i < i"
  unfolding parent_def by linarith

lemma parent_nonneg: "1 \<le> i \<Longrightarrow> 0 \<le> parent i"
  unfolding parent_def by linarith

lemma parent_child: "1 \<le> j \<Longrightarrow> parent j = i \<longleftrightarrow> j = 2 * i + 1 \<or> j = 2 * i + 2"
  unfolding parent_def by linarith

lemma heap_order_iff: "heap_order h \<longleftrightarrow> ok_from 0 (hSize h) h"
  unfolding heap_order_def ok_from_def pri_def
  using parent_nonneg by (auto simp: parent_def)

subsection \<open>swap\<close>

lemma swap_Inr:
  assumes "swap h i j = Inr h'"
  shows "in_bounds h i" "in_bounds h j"
    "h' = h\<lparr>A := (A h)[nat i := A h ! nat j, nat j := A h ! nat i]\<rparr>"
  using assms by (auto simp: swap_def Let_def split: if_splits)

lemma swap_fields:
  assumes "swap h i j = Inr h'"
  shows "hSize h' = hSize h" "hCapacity h' = hCapacity h" "length (A h') = length (A h)"
  using swap_Inr(3)[OF assms] by simp_all

lemma swap_ok: "in_bounds h i \<Longrightarrow> in_bounds h j \<Longrightarrow> \<exists>h'. swap h i j = Inr h'"
  by (simp add: swap_def Let_def)

lemma swap_nth:
  assumes "swap h i j = Inr h'" "0 \<le> k"
  shows "A h' ! nat k = (if k = j then A h ! nat i else if k = i then A h ! nat j else A h ! nat k)"
proof -
  note s = swap_Inr[OF assms(1)]
  from s(1,2) have b: "nat i < length (A h)" "nat j < length (A h)" "0 \<le> i" "0 \<le> j"
    by (auto simp: in_bounds_def)
  show ?thesis
    using b assms(2) by (simp add: s(3) nth_list_update eq_nat_nat_iff)
qed

lemma pri_swap:
  assumes "swap h i j = Inr h'" "0 \<le> k"
  shows "pri h' k = (if k = j then pri h i else if k = i then pri h j else pri h k)"
  using swap_nth[OF assms] by (simp add: pri_def)

lemma mset_take_swap:
  assumes "i < n" "j < n" "n \<le> length xs"
  shows "mset (take n (xs[i := xs ! j, j := xs ! i])) = mset (take n xs)"
proof -
  have l: "i < length (take n xs)" "j < length (take n xs)"
    using assms by simp_all
  have "take n (xs[i := xs ! j, j := xs ! i]) = (take n xs)[i := take n xs ! j, j := take n xs ! i]"
    using assms by (simp add: take_update_swap)
  also have "mset \<dots> = mset (take n xs)"
    by (rule mset_swap[OF l(2) l(1)])
  finally show ?thesis .
qed

lemma swap_mset_take:
  assumes "swap h i j = Inr h'" "i < int n" "j < int n"
  shows "mset (take n (A h')) = mset (take n (A h))"
proof -
  note s = swap_Inr[OF assms(1)]
  from s(1,2) assms(2,3) have b: "nat i < n" "nat j < n" "nat i < length (A h)" "nat j < length (A h)"
    by (auto simp: in_bounds_def)
  show ?thesis
  proof (cases "n \<le> length (A h)")
    case True
    with b show ?thesis by (simp add: s(3) mset_take_swap)
  next
    case False
    then show ?thesis using b mset_swap[OF b(4) b(3)] by (simp add: s(3))
  qed
qed

subsection \<open>The runs of trickleUp and trickleDown\<close>

lemma trickleUp_cases:
  assumes "trickleUp h i = Inr h'"
  obtains (root) "i = 0" "h' = h"
  | (stay) "1 \<le> i" "in_bounds h i" "pri h (parent i) \<le> pri h i" "h' = h"
  | (step) h1 where "1 \<le> i" "in_bounds h i" "pri h i < pri h (parent i)"
      "swap h i (parent i) = Inr h1" "trickleUp h1 (parent i) = Inr h'"
proof (cases "i = 0")
  case True
  with assms have "h' = h" by (subst (asm) trickleUp.simps) simp
  with True root show ?thesis by blast
next
  case False
  from assms False have b: "in_bounds h i"
    by (subst (asm) trickleUp.simps) (simp split: if_splits)
  with False have i1: "1 \<le> i" by (simp add: in_bounds_def)
  note cp = c_div_parent[OF i1]
  show ?thesis
  proof (cases "pri h (parent i) \<le> pri h i")
    case True
    with assms False have "h' = h"
      by (subst (asm) trickleUp.simps) (simp add: cp pri_def split: if_splits)
    with i1 b True stay show ?thesis by blast
  next
    case le: False
    with assms False obtain h1 where "swap h i (parent i) = Inr h1" "trickleUp h1 (parent i) = Inr h'"
      by (subst (asm) trickleUp.simps) (simp add: cp pri_def split: if_splits sum.splits)
    with i1 b le step show ?thesis by force
  qed
qed

lemma trickleDown_cases:
  assumes "trickleDown h i = Inr h'"
  obtains (leaf) "hSize h \<le> 2 * i + 1" "h' = h"
  | (one_stay) "2 * i + 1 = hSize h - 1" "in_bounds h i" "in_bounds h (2 * i + 1)"
      "pri h i \<le> pri h (2 * i + 1)" "h' = h"
  | (one_swap) "2 * i + 1 = hSize h - 1" "pri h (2 * i + 1) < pri h i"
      "swap h i (2 * i + 1) = Inr h'"
  | (two_stay) "2 * i + 2 < hSize h" "in_bounds h i" "in_bounds h (2 * i + 1)" "in_bounds h (2 * i + 2)"
      "pri h i \<le> pri h (2 * i + 1)" "pri h i \<le> pri h (2 * i + 2)" "h' = h"
  | (two_right) h1 where "2 * i + 2 < hSize h" "pri h (2 * i + 2) < pri h (2 * i + 1)"
      "pri h (2 * i + 2) < pri h i" "swap h i (2 * i + 2) = Inr h1"
      "trickleDown h1 (2 * i + 2) = Inr h'"
  | (two_left) h1 where "2 * i + 2 < hSize h" "pri h (2 * i + 1) \<le> pri h (2 * i + 2)"
      "pri h (2 * i + 1) < pri h i" "swap h i (2 * i + 1) = Inr h1"
      "trickleDown h1 (2 * i + 1) = Inr h'"
proof -
  from assms have
   "(hSize h \<le> 2 * i + 1 \<and> h' = h)
    \<or> (2 * i + 1 = hSize h - 1 \<and> in_bounds h i \<and> in_bounds h (2 * i + 1)
         \<and> pri h i \<le> pri h (2 * i + 1) \<and> h' = h)
    \<or> (2 * i + 1 = hSize h - 1 \<and> pri h (2 * i + 1) < pri h i \<and> swap h i (2 * i + 1) = Inr h')
    \<or> (2 * i + 2 < hSize h \<and> in_bounds h i \<and> in_bounds h (2 * i + 1) \<and> in_bounds h (2 * i + 2)
         \<and> pri h i \<le> pri h (2 * i + 1) \<and> pri h i \<le> pri h (2 * i + 2) \<and> h' = h)
    \<or> (\<exists>h1. 2 * i + 2 < hSize h \<and> pri h (2 * i + 2) < pri h (2 * i + 1)
         \<and> pri h (2 * i + 2) < pri h i \<and> swap h i (2 * i + 2) = Inr h1
         \<and> trickleDown h1 (2 * i + 2) = Inr h')
    \<or> (\<exists>h1. 2 * i + 2 < hSize h \<and> pri h (2 * i + 1) \<le> pri h (2 * i + 2)
         \<and> pri h (2 * i + 1) < pri h i \<and> swap h i (2 * i + 1) = Inr h1
         \<and> trickleDown h1 (2 * i + 1) = Inr h')"
    apply (subst (asm) trickleDown.simps)
    apply (simp only: Let_def pri_def split: if_splits sum.splits)
    apply auto
    done
  then show ?thesis
    using leaf one_stay one_swap two_stay two_right two_left by blast
qed

lemma trickleUp_run_induct [consumes 1, case_names stop step]:
  assumes run: "trickleUp h i = Inr h'"
    and stop: "\<And>h i. i = 0 \<or> (1 \<le> i \<and> in_bounds h i \<and> pri h (parent i) \<le> pri h i) \<Longrightarrow> P h i h"
    and step: "\<And>h i h1 h'. \<lbrakk>1 \<le> i; in_bounds h i; pri h i < pri h (parent i);
                 swap h i (parent i) = Inr h1; trickleUp h1 (parent i) = Inr h';
                 P h1 (parent i) h'\<rbrakk> \<Longrightarrow> P h i h'"
  shows "P h i h'"
  using run
proof (induction "nat i" arbitrary: h i rule: less_induct)
  case less
  from less.prems show ?case
  proof (cases rule: trickleUp_cases)
    case root
    then show ?thesis using stop by simp
  next
    case stay
    then show ?thesis using stop by simp
  next
    case (step h1)
    have "nat (parent i) < nat i"
      using parent_less[OF step(1)] step(1) by linarith
    from less.hyps[OF this step(5)] have "P h1 (parent i) h'" .
    with step show ?thesis using assms(3) by blast
  qed
qed

lemma trickleDown_run_induct [consumes 1, case_names leaf one_stay one_swap two_stay step]:
  assumes run: "trickleDown h i = Inr h'"
    and leaf: "\<And>h i. hSize h \<le> 2 * i + 1 \<Longrightarrow> P h i h"
    and one_stay: "\<And>h i. \<lbrakk>2 * i + 1 = hSize h - 1; in_bounds h i; in_bounds h (2 * i + 1);
                 pri h i \<le> pri h (2 * i + 1)\<rbrakk> \<Longrightarrow> P h i h"
    and one_swap: "\<And>h i h'. \<lbrakk>2 * i + 1 = hSize h - 1; pri h (2 * i + 1) < pri h i;
                 swap h i (2 * i + 1) = Inr h'\<rbrakk> \<Longrightarrow> P h i h'"
    and two_stay: "\<And>h i. \<lbrakk>2 * i + 2 < hSize h; in_bounds h i; in_bounds h (2 * i + 1);
                 in_bounds h (2 * i + 2); pri h i \<le> pri h (2 * i + 1);
                 pri h i \<le> pri h (2 * i + 2)\<rbrakk> \<Longrightarrow> P h i h"
    and step: "\<And>h i c h1 h'. \<lbrakk>2 * i + 2 < hSize h; c = 2 * i + 1 \<or> c = 2 * i + 2;
                 pri h c < pri h i; pri h c \<le> pri h (2 * i + 1); pri h c \<le> pri h (2 * i + 2);
                 swap h i c = Inr h1; trickleDown h1 c = Inr h'; P h1 c h'\<rbrakk> \<Longrightarrow> P h i h'"
  shows "P h i h'"
  using run
proof (induction "nat (hSize h - i)" arbitrary: h i rule: less_induct)
  case less
  from less.prems show ?case
  proof (cases rule: trickleDown_cases)
    case leaf
    then show ?thesis using assms(2) by simp
  next
    case one_stay
    then show ?thesis using assms(3) by simp
  next
    case one_swap
    then show ?thesis using assms(4) by simp
  next
    case two_stay
    then show ?thesis using assms(5) by simp
  next
    case (two_right h1)
    have i0: "0 \<le> i" using swap_Inr(1)[OF two_right(4)] by (simp add: in_bounds_def)
    have "nat (hSize h1 - (2 * i + 2)) < nat (hSize h - i)"
      using swap_fields(1)[OF two_right(4)] two_right(1) i0 by linarith
    from less.hyps[OF this two_right(5)] have ih: "P h1 (2 * i + 2) h'" .
    show ?thesis
      by (rule assms(6)[OF two_right(1) _ _ _ _ two_right(4) two_right(5) ih])
         (use two_right in simp_all)
  next
    case (two_left h1)
    have i0: "0 \<le> i" using swap_Inr(1)[OF two_left(4)] by (simp add: in_bounds_def)
    have "nat (hSize h1 - (2 * i + 1)) < nat (hSize h - i)"
      using swap_fields(1)[OF two_left(4)] two_left(1) i0 by linarith
    from less.hyps[OF this two_left(5)] have ih: "P h1 (2 * i + 1) h'" .
    show ?thesis
      by (rule assms(6)[OF two_left(1) _ _ _ _ two_left(4) two_left(5) ih])
         (use two_left in simp_all)
  qed
qed

subsection \<open>trickleUp\<close>

lemma trickleUp_fields:
  assumes "trickleUp h i = Inr h'"
  shows "hSize h' = hSize h \<and> hCapacity h' = hCapacity h \<and> length (A h') = length (A h)"
  using assms by (induction rule: trickleUp_run_induct) (simp_all add: swap_fields)

lemma trickleUp_succeeds:
  "in_bounds h i \<Longrightarrow> \<exists>h'. trickleUp h i = Inr h'"
proof (induction "nat i" arbitrary: h i rule: less_induct)
  case less
  show ?case
  proof (cases "i = 0")
    case True
    then show ?thesis by (subst trickleUp.simps) simp
  next
    case False
    with less.prems have i1: "1 \<le> i" by (simp add: in_bounds_def)
    have pb: "in_bounds h (parent i)"
      using parent_less[OF i1] parent_nonneg[OF i1] less.prems by (simp add: in_bounds_def)
    from swap_ok[OF less.prems pb] obtain h1 where s: "swap h i (parent i) = Inr h1" ..
    have "in_bounds h1 (parent i)" using pb swap_fields(3)[OF s] by (simp add: in_bounds_def)
    moreover have "nat (parent i) < nat i" using parent_less[OF i1] i1 by linarith
    ultimately obtain h' where "trickleUp h1 (parent i) = Inr h'"
      using less.hyps by blast
    then show ?thesis
      using False less.prems pb s
      by (subst trickleUp.simps) (simp add: c_div_parent[OF i1])
  qed
qed

lemma trickleUp_mset_take:
  assumes "trickleUp h i = Inr h'" "i < int n"
  shows "mset (take n (A h')) = mset (take n (A h))"
  using assms
proof (induction rule: trickleUp_run_induct)
  case (stop h i)
  then show ?case by simp
next
  case (step h i h1 h')
  have pl: "parent i < int n" using parent_less[OF step(1)] step.prems(1) by linarith
  have "mset (take n (A h1)) = mset (take n (A h))"
    by (rule swap_mset_take[OF step(4) step.prems(1) pl])
  moreover have "mset (take n (A h')) = mset (take n (A h1))"
    using step.IH pl by simp
  ultimately show ?case by simp
qed

lemma up_inv_step:
  assumes inv: "up_inv n h i" and i1: "1 \<le> i" and lt: "pri h i < pri h (parent i)"
    and s: "swap h i (parent i) = Inr h1"
  shows "up_inv n h1 (parent i)"
  unfolding up_inv_def
proof (intro conjI allI impI)
  fix j assume j: "1 \<le> j \<and> j < n \<and> j \<noteq> parent i"
  have pj: "0 \<le> parent j" "0 \<le> j" using j parent_nonneg[of j] by auto
  have pi: "parent i < i" using parent_less[OF i1] .
  note P = pri_swap[OF s]
  show "pri h1 (parent j) \<le> pri h1 j"
  proof (cases "j = i")
    case True
    then show ?thesis using P[OF pj(1)] P[OF pj(2)] lt pi by simp
  next
    case ji: False
    from inv j ji have o: "pri h (parent j) \<le> pri h j" by (simp add: up_inv_def)
    show ?thesis
    proof (cases "parent j = parent i")
      case True
      then show ?thesis using P[OF pj(1)] P[OF pj(2)] o lt ji j by simp
    next
      case False
      show ?thesis
      proof (cases "parent j = i")
        case True
        with inv j i1 have "pri h (parent i) \<le> pri h j" by (simp add: up_inv_def)
        then show ?thesis using P[OF pj(1)] P[OF pj(2)] True ji j pi by simp
      next
        case F2: False
        then show ?thesis using P[OF pj(1)] P[OF pj(2)] False ji j o by simp
      qed
    qed
  qed
next
  fix j assume j: "1 \<le> j \<and> j < n \<and> parent j = parent i \<and> 1 \<le> parent i"
  let ?p = "parent i"
  have pp: "parent ?p < ?p" "0 \<le> parent ?p" using j parent_less[of ?p] parent_nonneg[of ?p] by auto
  have pi: "?p < i" using parent_less[OF i1] .
  have pj: "?p < j" using j parent_less[of j] by simp
  note P = pri_swap[OF s]
  have a: "pri h1 (parent ?p) = pri h (parent ?p)" using P[OF pp(2)] pp pi by simp
  have b: "pri h (parent ?p) \<le> pri h ?p"
    using inv j pi pj by (simp add: up_inv_def)
  show "pri h1 (parent ?p) \<le> pri h1 j"
  proof (cases "j = i")
    case True
    then show ?thesis using P[of j] a b j pi by simp
  next
    case False
    with inv j have "pri h ?p \<le> pri h j" by (auto simp: up_inv_def)
    then show ?thesis using P[of j] a b j pj False by simp
  qed
qed

lemma trickleUp_restores:
  assumes "trickleUp h i = Inr h'" "up_inv n h i"
  shows "ok_from 0 n h'"
  using assms
proof (induction rule: trickleUp_run_induct)
  case (stop h i)
  show ?case unfolding ok_from_def
  proof (intro allI impI)
    fix j assume j: "1 \<le> j \<and> j < n \<and> 0 \<le> parent j"
    show "pri h (parent j) \<le> pri h j"
    proof (cases "j = i")
      case True
      with stop(1) j show ?thesis by auto
    next
      case False
      with stop(2) j show ?thesis by (simp add: up_inv_def)
    qed
  qed
next
  case (step h i h1 h')
  from step.IH up_inv_step[OF step.prems step(1) step(3) step(4)] show ?case .
qed

subsection \<open>trickleDown\<close>

lemma trickleDown_unfold:
  assumes "0 \<le> i" "2 * i + 2 \<le> INT_MAX" "hSize h \<le> int (length (A h))"
  shows "trickleDown h i =
     (if hSize h \<le> 2 * i + 1 then Inr h
      else if hSize h \<le> 2 * i + 2 then
        (if pri h (2 * i + 1) < pri h i then swap h i (2 * i + 1) else Inr h)
      else if pri h i \<le> pri h (2 * i + 1) \<and> pri h i \<le> pri h (2 * i + 2) then Inr h
      else if pri h (2 * i + 2) < pri h (2 * i + 1) then
        (case swap h i (2 * i + 2) of Inl e \<Rightarrow> Inl e | Inr h1 \<Rightarrow> trickleDown h1 (2 * i + 2))
      else
        (case swap h i (2 * i + 1) of Inl e \<Rightarrow> Inl e | Inr h1 \<Rightarrow> trickleDown h1 (2 * i + 1)))"
proof -
  have ov: "\<not> (2 * i < INT_MIN \<or> INT_MAX < 2 * i + 2)"
    using assms(1,2) by (simp add: INT_MIN_def)
  have b: "\<And>j. 0 \<le> j \<Longrightarrow> j < hSize h \<Longrightarrow> in_bounds h j"
    using assms(3) by (simp add: in_bounds_def)
  show ?thesis
  proof (cases "hSize h \<le> 2 * i + 1")
    case True
    then show ?thesis using ov by (subst trickleDown.simps) (simp add: Let_def)
  next
    case nl: False
    then have bi: "in_bounds h i" "in_bounds h (2 * i + 1)" using b assms(1) by auto
    show ?thesis
    proof (cases "hSize h \<le> 2 * i + 2")
      case True
      then show ?thesis using ov nl bi
        by (subst trickleDown.simps) (simp add: Let_def pri_def)
    next
      case False
      then have "in_bounds h (2 * i + 2)" using b assms(1) by auto
      then show ?thesis using ov nl bi False
        by (subst trickleDown.simps) (auto simp add: Let_def pri_def)
    qed
  qed
qed

lemma trickleDown_fields:
  assumes "trickleDown h i = Inr h'"
  shows "hSize h' = hSize h \<and> hCapacity h' = hCapacity h \<and> length (A h') = length (A h)"
  using assms by (induction rule: trickleDown_run_induct) (simp_all add: swap_fields)

lemma trickleDown_mset_entries:
  assumes "trickleDown h i = Inr h'"
  shows "mset (entries h') = mset (entries h)"
  using assms
proof (induction rule: trickleDown_run_induct)
  case (one_swap h i h')
  have i0: "0 \<le> i" using swap_Inr(1)[OF one_swap(3)] by (simp add: in_bounds_def)
  have "i < int (nat (hSize h))" "2 * i + 1 < int (nat (hSize h))"
    using one_swap(1) i0 by linarith+
  from swap_mset_take[OF one_swap(3) this] show ?case
    by (simp add: entries_def swap_fields(1)[OF one_swap(3)])
next
  case (step h i c h1 h')
  have i0: "0 \<le> i" using swap_Inr(1)[OF step(6)] by (simp add: in_bounds_def)
  have "i < int (nat (hSize h))" "c < int (nat (hSize h))"
    using step(1,2) i0 by linarith+
  from swap_mset_take[OF step(6) this] show ?case
    using step.IH by (simp add: entries_def swap_fields(1)[OF step(6)])
qed simp_all

lemma trickleDown_succeeds:
  assumes "0 \<le> i" "2 * i + 2 \<le> INT_MAX" "hSize h \<le> 1073741824"
    "hSize h \<le> int (length (A h))"
  shows "\<exists>h'. trickleDown h i = Inr h'"
  using assms
proof (induction "nat (hSize h - i)" arbitrary: h i rule: less_induct)
  case less
  note u = trickleDown_unfold[OF less.prems(1,2,4)]
  have b: "\<And>j. 0 \<le> j \<Longrightarrow> j < hSize h \<Longrightarrow> in_bounds h j"
    using less.prems(4) by (simp add: in_bounds_def)
  have rec: "\<exists>h'. (case swap h i c of Inl e \<Rightarrow> Inl e | Inr h1 \<Rightarrow> trickleDown h1 c) = Inr h'"
    if c: "c = 2 * i + 1 \<or> c = 2 * i + 2" "2 * i + 2 < hSize h" for c
  proof -
    have ci: "i < c" "c < hSize h" using c less.prems(1) by auto
    have "in_bounds h i" "in_bounds h c" using b ci less.prems(1) by auto
    from swap_ok[OF this] obtain h1 where s: "swap h i c = Inr h1" ..
    note f = swap_fields[OF s]
    have "nat (hSize h1 - c) < nat (hSize h - i)" using ci f(1) by linarith
    moreover have "2 * c + 2 \<le> INT_MAX"
      using c less.prems(3) unfolding INT_MAX_def by presburger
    moreover have "0 \<le> c" "hSize h1 \<le> 1073741824" "hSize h1 \<le> int (length (A h1))"
      using ci less.prems f by auto
    ultimately obtain h' where "trickleDown h1 c = Inr h'" using less.hyps by blast
    with s show ?thesis by simp
  qed
  show ?case
  proof (cases "hSize h \<le> 2 * i + 1")
    case True
    then show ?thesis by (simp add: u)
  next
    case nl: False
    show ?thesis
    proof (cases "hSize h \<le> 2 * i + 2")
      case True
      have "in_bounds h i" "in_bounds h (2 * i + 1)" using b nl less.prems(1) by auto
      from swap_ok[OF this] show ?thesis using nl True by (auto simp: u)
    next
      case False
      from rec[of "2 * i + 1"] rec[of "2 * i + 2"] nl False less.prems(1) show ?thesis
        by (simp add: u)
    qed
  qed
qed

lemma down_inv_swap:
  assumes inv: "down_inv k h i" and s: "swap h i c = Inr h1"
    and c: "c = 2 * i + 1 \<or> c = 2 * i + 2" "c < hSize h"
    and lt: "pri h c < pri h i"
    and mn: "\<And>j. 1 \<le> j \<Longrightarrow> j < hSize h \<Longrightarrow> parent j = i \<Longrightarrow> pri h c \<le> pri h j"
    and j: "1 \<le> j" "j < hSize h" "k \<le> parent j" "parent j \<noteq> c"
  shows "pri h1 (parent j) \<le> pri h1 j"
proof -
  have i0: "0 \<le> i" using swap_Inr(1)[OF s] by (simp add: in_bounds_def)
  have ci: "i < c" "1 \<le> c" "parent c = i" using c(1) i0 by (auto simp: parent_def)
  have pj: "0 \<le> parent j" "0 \<le> j" "parent j < j" using j(1) parent_nonneg[of j] parent_less[of j] by auto
  note P = pri_swap[OF s]
  show ?thesis
  proof (cases "parent j = i")
    case True
    show ?thesis
    proof (cases "j = c")
      case True
      then show ?thesis using P[OF pj(1)] P[OF pj(2)] ci lt by simp
    next
      case False
      from mn[OF j(1,2) True] show ?thesis
        using P[OF pj(1)] P[OF pj(2)] True False pj(3) ci by simp
    qed
  next
    case npi: False
    then have jc: "j \<noteq> c" using ci by auto
    show ?thesis
    proof (cases "j = i")
      case True
      then have "1 \<le> i" "k \<le> parent i" using j by auto
      with inv c(2) ci have "pri h (parent i) \<le> pri h c" by (auto simp: down_inv_def)
      then show ?thesis using P[OF pj(1)] P[OF pj(2)] True pj(3) ci by simp
    next
      case False
      from inv j npi have "pri h (parent j) \<le> pri h j" by (simp add: down_inv_def)
      then show ?thesis using P[OF pj(1)] P[OF pj(2)] False jc npi j(4) by simp
    qed
  qed
qed

lemma trickleDown_restores:
  assumes "trickleDown h i = Inr h'" "down_inv k h i" "k \<le> i" "0 \<le> i"
  shows "ok_from k (hSize h) h'"
  using assms
proof (induction rule: trickleDown_run_induct)
  case (leaf h i)
  show ?case unfolding ok_from_def
  proof (intro allI impI)
    fix j assume j: "1 \<le> j \<and> j < hSize h \<and> k \<le> parent j"
    then have "parent j \<noteq> i" using leaf(1) parent_child[of j i] by auto
    with leaf(2) j show "pri h (parent j) \<le> pri h j" by (simp add: down_inv_def)
  qed
next
  case (one_stay h i)
  show ?case unfolding ok_from_def
  proof (intro allI impI)
    fix j assume j: "1 \<le> j \<and> j < hSize h \<and> k \<le> parent j"
    show "pri h (parent j) \<le> pri h j"
    proof (cases "parent j = i")
      case True
      then have "j = 2 * i + 1" using one_stay(1) j parent_child[of j i] by auto
      with one_stay(4) True show ?thesis by simp
    next
      case False
      with one_stay(5) j show ?thesis by (simp add: down_inv_def)
    qed
  qed
next
  case (one_swap h i h')
  let ?c = "2 * i + 1"
  have mn: "pri h ?c \<le> pri h j" if "1 \<le> j" "j < hSize h" "parent j = i" for j
  proof -
    from that have "j = ?c" using one_swap(1) parent_child[of j i] by auto
    then show ?thesis by simp
  qed
  show ?case unfolding ok_from_def
  proof (intro allI impI)
    fix j assume j: "1 \<le> j \<and> j < hSize h \<and> k \<le> parent j"
    then have "parent j < hSize h - 1" using parent_less[of j] by linarith
    then have "parent j \<noteq> ?c" using one_swap(1) by simp
    moreover have "?c = 2 * i + 1 \<or> ?c = 2 * i + 2" "?c < hSize h"
      using one_swap(1) by simp_all
    ultimately show "pri h' (parent j) \<le> pri h' j"
      using j by (intro down_inv_swap[OF one_swap(4) one_swap(3) _ _ one_swap(2) mn]) blast+
  qed
next
  case (two_stay h i)
  show ?case unfolding ok_from_def
  proof (intro allI impI)
    fix j assume j: "1 \<le> j \<and> j < hSize h \<and> k \<le> parent j"
    show "pri h (parent j) \<le> pri h j"
    proof (cases "parent j = i")
      case True
      then have "j = 2 * i + 1 \<or> j = 2 * i + 2" using j parent_child[of j i] by auto
      with two_stay(5,6) True show ?thesis by auto
    next
      case False
      with two_stay(7) j show ?thesis by (simp add: down_inv_def)
    qed
  qed
next
  case (step h i c h1 h')
  note f = swap_fields[OF step(6)]
  have i0: "0 \<le> i" by fact
  have ci: "i < c" "1 \<le> c" "parent c = i" "c < hSize h"
    using step(1,2) i0 by (auto simp: parent_def)
  have mn: "pri h c \<le> pri h j" if "1 \<le> j" "j < hSize h" "parent j = i" for j
  proof -
    from that have "j = 2 * i + 1 \<or> j = 2 * i + 2" using parent_child[of j i] by auto
    with step(4,5) show ?thesis by auto
  qed
  have "down_inv k h1 c"
    unfolding down_inv_def
  proof (intro conjI allI impI)
    fix j assume "1 \<le> j \<and> j < hSize h1 \<and> k \<le> parent j \<and> parent j \<noteq> c"
    then have "1 \<le> j" "j < hSize h" "k \<le> parent j" "parent j \<noteq> c"
      using f(1) by simp_all
    then show "pri h1 (parent j) \<le> pri h1 j"
      by (intro down_inv_swap[OF step.prems(1) step(6) step(2) ci(4) step(3) mn]) blast+
  next
    fix j assume j: "1 \<le> j \<and> j < hSize h1 \<and> parent j = c \<and> 1 \<le> c \<and> k \<le> parent c"
    then have jc: "c < j" "0 \<le> j" using parent_less[of j] by auto
    have "1 \<le> j \<and> j < hSize h \<and> k \<le> parent j \<and> parent j \<noteq> i"
      using j f(1) ci step.prems(2) by simp
    with step.prems(1) have "pri h (parent j) \<le> pri h j"
      unfolding down_inv_def by blast
    moreover have "pri h1 j = pri h j" "pri h1 i = pri h c"
      using pri_swap[OF step(6) jc(2)] pri_swap[OF step(6) i0] jc ci by auto
    ultimately show "pri h1 (parent c) \<le> pri h1 j" using j ci(3) by simp
  qed
  from step.IH[OF this] step.prems(2) ci i0 show ?case by (simp add: f(1))
qed

subsection \<open>insert\<close>

lemma insert_heap_Inr:
  assumes "insert_heap h e p = Inr h'"
  obtains h2 where "in_bounds h (hSize h)"
    "trickleUp (h\<lparr>A := (A h)[nat (hSize h) := \<lparr>element = e, priority = p\<rparr>]\<rparr>) (hSize h) = Inr h2"
    "h' = h2\<lparr>hSize := hSize h2 + 1\<rparr>"
  using assms by (auto simp: insert_heap_def Let_def split: if_splits sum.splits)

lemma insert_heap_succeeds:
  assumes "in_bounds h (hSize h)"
  shows "\<exists>h'. insert_heap h e p = Inr h'"
proof -
  let ?h1 = "h\<lparr>A := (A h)[nat (hSize h) := \<lparr>element = e, priority = p\<rparr>]\<rparr>"
  have "in_bounds ?h1 (hSize h)" using assms by (simp add: in_bounds_def)
  from trickleUp_succeeds[OF this] obtain h2 where "trickleUp ?h1 (hSize h) = Inr h2" ..
  then show ?thesis using assms by (simp add: insert_heap_def Let_def)
qed

lemma insert_heap_fields:
  assumes "insert_heap h e p = Inr h'"
  shows "hSize h' = hSize h + 1" "hCapacity h' = hCapacity h" "length (A h') = length (A h)"
    "0 \<le> hSize h" "hSize h < int (length (A h))"
proof -
  from assms obtain h2 where b: "in_bounds h (hSize h)"
    and t: "trickleUp (h\<lparr>A := (A h)[nat (hSize h) := \<lparr>element = e, priority = p\<rparr>]\<rparr>) (hSize h) = Inr h2"
    and h': "h' = h2\<lparr>hSize := hSize h2 + 1\<rparr>"
    by (rule insert_heap_Inr)
  from trickleUp_fields[OF t] h' b
  show "hSize h' = hSize h + 1" "hCapacity h' = hCapacity h" "length (A h') = length (A h)"
    "0 \<le> hSize h" "hSize h < int (length (A h))"
    by (simp_all add: in_bounds_def)
qed

lemma insert_heap_mset:
  assumes "insert_heap h e p = Inr h'"
  shows "mset (entries h') = add_mset \<lparr>element = e, priority = p\<rparr> (mset (entries h))"
proof -
  let ?x = "\<lparr>element = e, priority = p\<rparr>"
  let ?n = "nat (hSize h)"
  from assms obtain h2 where b: "in_bounds h (hSize h)"
    and t: "trickleUp (h\<lparr>A := (A h)[?n := ?x]\<rparr>) (hSize h) = Inr h2"
    and h': "h' = h2\<lparr>hSize := hSize h2 + 1\<rparr>"
    by (rule insert_heap_Inr)
  from b have n: "?n < length (A h)" "0 \<le> hSize h" by (auto simp: in_bounds_def)
  have sz: "hSize h2 = hSize h" using trickleUp_fields[OF t] by simp
  have "hSize h < int (Suc ?n)" using n(2) by simp
  from trickleUp_mset_take[OF t this]
  have "mset (take (Suc ?n) (A h2)) = mset (take (Suc ?n) ((A h)[?n := ?x]))" by simp
  also have "take (Suc ?n) ((A h)[?n := ?x]) = take ?n (A h) @ [?x]"
    using n(1) by (simp add: take_Suc_conv_app_nth)
  finally have "mset (take (Suc ?n) (A h2)) = add_mset ?x (mset (take ?n (A h)))" by simp
  moreover have "nat (hSize h') = Suc ?n" using h' sz n(2) by simp
  ultimately show ?thesis by (simp add: entries_def h')
qed

lemma insert_heap_order:
  assumes "insert_heap h e p = Inr h'" "heap_order h"
  shows "heap_order h'"
proof -
  let ?x = "\<lparr>element = e, priority = p\<rparr>"
  let ?n = "hSize h"
  let ?h1 = "h\<lparr>A := (A h)[nat ?n := ?x]\<rparr>"
  from assms(1) obtain h2 where b: "in_bounds h ?n"
    and t: "trickleUp ?h1 ?n = Inr h2"
    and h': "h' = h2\<lparr>hSize := hSize h2 + 1\<rparr>"
    by (rule insert_heap_Inr)
  from b have n: "0 \<le> ?n" by (simp add: in_bounds_def)
  have sz: "hSize h2 = ?n" using trickleUp_fields[OF t] by simp
  have same: "pri ?h1 j = pri h j" if "0 \<le> j" "j < ?n" for j
    using that by (simp add: pri_def)
  have "up_inv (?n + 1) ?h1 ?n"
    unfolding up_inv_def
  proof (intro conjI allI impI)
    fix j assume j: "1 \<le> j \<and> j < ?n + 1 \<and> j \<noteq> ?n"
    then have "0 \<le> parent j" "parent j < ?n" "0 \<le> j" "j < ?n"
      using parent_nonneg[of j] parent_less[of j] by auto
    moreover have "pri h (parent j) \<le> pri h j"
      using assms(2) j by (simp add: heap_order_iff ok_from_def parent_nonneg)
    ultimately show "pri ?h1 (parent j) \<le> pri ?h1 j" by (simp add: same)
  next
    fix j assume j: "1 \<le> j \<and> j < ?n + 1 \<and> parent j = ?n \<and> 1 \<le> ?n"
    then have "?n < j" using parent_less[of j] by simp
    with j show "pri ?h1 (parent ?n) \<le> pri ?h1 j" by simp
  qed
  from trickleUp_restores[OF t this] have "ok_from 0 (?n + 1) h2" .
  then show ?thesis
    by (simp add: heap_order_iff h' sz ok_from_def pri_def)
qed

lemma insert_heap_wf:
  assumes "insert_heap h e p = Inr h'" "wf_heap h"
  shows "wf_heap h'"
  using insert_heap_fields[OF assms(1)] assms(2) by (simp add: wf_heap_def)

subsection \<open>extractMin\<close>

lemma extractMin_Inr:
  assumes "extractMin h = Inr (m, h')"
  shows "in_bounds h 0" "in_bounds h (hSize h - 1)" "m = element (A h ! 0)"
    "trickleDown (h\<lparr>A := (A h)[0 := A h ! nat (hSize h - 1)], hSize := hSize h - 1\<rparr>) 0 = Inr h'"
  using assms by (auto simp: extractMin_def Let_def split: if_splits sum.splits)

lemma extractMin_fields:
  assumes "extractMin h = Inr (m, h')"
  shows "hSize h' = hSize h - 1" "hCapacity h' = hCapacity h" "length (A h') = length (A h)"
  using trickleDown_fields[OF extractMin_Inr(4)[OF assms]] by simp_all

lemma extractMin_succeeds:
  assumes "1 \<le> hSize h" "hSize h \<le> int (length (A h))" "hSize h \<le> 1073741825"
  shows "\<exists>m h'. extractMin h = Inr (m, h')"
proof -
  let ?h2 = "h\<lparr>A := (A h)[0 := A h ! nat (hSize h - 1)], hSize := hSize h - 1\<rparr>"
  have "\<exists>h'. trickleDown ?h2 0 = Inr h'"
    using assms by (intro trickleDown_succeeds) (simp_all add: INT_MAX_def)
  then show ?thesis using assms(1,2)
    by (auto simp: extractMin_def Let_def in_bounds_def)
qed

lemma extractMin_mset:
  assumes "extractMin h = Inr (m, h')" "1 \<le> hSize h"
  shows "mset (entries h) = add_mset (A h ! 0) (mset (entries h'))"
proof -
  let ?n = "nat (hSize h - 1)"
  let ?h2 = "h\<lparr>A := (A h)[0 := A h ! ?n], hSize := hSize h - 1\<rparr>"
  note e = extractMin_Inr[OF assms(1)]
  from e(2) have n: "?n < length (A h)" by (auto simp: in_bounds_def)
  have sn: "nat (hSize h) = Suc ?n" using assms(2) by simp
  have "mset (entries h') = mset (entries ?h2)" by (rule trickleDown_mset_entries[OF e(4)])
  also have "entries ?h2 = take ?n ((A h)[0 := A h ! ?n])" by (simp add: entries_def)
  finally have 1: "mset (entries h') = mset (take ?n ((A h)[0 := A h ! ?n]))" .
  have 2: "entries h = take ?n (A h) @ [A h ! ?n]"
    using n by (simp add: entries_def sn take_Suc_conv_app_nth)
  show ?thesis
  proof (cases "?n = 0")
    case True
    then show ?thesis using 1 2 by simp
  next
    case False
    then have l: "0 < length (take ?n (A h))" using n by simp
    have "take ?n ((A h)[0 := A h ! ?n]) = (take ?n (A h))[0 := A h ! ?n]"
      using False by (simp add: take_update_swap)
    then have "mset (entries h') = add_mset (A h ! ?n) (mset (take ?n (A h)) - {#take ?n (A h) ! 0#})"
      using 1 l by (simp add: mset_update)
    moreover have "take ?n (A h) ! 0 = A h ! 0" using False by simp
    moreover have "A h ! 0 \<in># mset (take ?n (A h))"
      using l False by (metis \<open>take ?n (A h) ! 0 = A h ! 0\<close> nth_mem_mset)
    ultimately show ?thesis using 2 by simp
  qed
qed

lemma extractMin_order:
  assumes "extractMin h = Inr (m, h')" "heap_order h"
  shows "heap_order h'"
proof -
  let ?n = "nat (hSize h - 1)"
  let ?h2 = "h\<lparr>A := (A h)[0 := A h ! ?n], hSize := hSize h - 1\<rparr>"
  note e = extractMin_Inr[OF assms(1)]
  have same: "pri ?h2 j = pri h j" if "1 \<le> j" for j
    using that by (simp add: pri_def)
  have "down_inv 0 ?h2 0"
    unfolding down_inv_def
  proof (intro conjI allI impI)
    fix j assume j: "1 \<le> j \<and> j < hSize ?h2 \<and> 0 \<le> parent j \<and> parent j \<noteq> 0"
    then have "1 \<le> parent j" by simp
    moreover have "pri h (parent j) \<le> pri h j"
      using assms(2) j by (simp add: heap_order_iff ok_from_def)
    ultimately show "pri ?h2 (parent j) \<le> pri ?h2 j" using j by (simp add: same)
  qed simp
  from trickleDown_restores[OF e(4) this] have "ok_from 0 (hSize h - 1) h'" by simp
  then show ?thesis by (simp add: heap_order_iff extractMin_fields(1)[OF assms(1)])
qed

lemma extractMin_wf:
  assumes "extractMin h = Inr (m, h')" "wf_heap h" "1 \<le> hSize h"
  shows "wf_heap h'"
  using extractMin_fields[OF assms(1)] assms(2,3) by (simp add: wf_heap_def)

lemma root_minimal:
  assumes "heap_order h" "0 \<le> j" "j < hSize h"
  shows "pri h 0 \<le> pri h j"
  using assms(2,3)
proof (induction "nat j" arbitrary: j rule: less_induct)
  case less
  show ?case
  proof (cases "j = 0")
    case True
    then show ?thesis by simp
  next
    case False
    with less.prems have j1: "1 \<le> j" by simp
    have "pri h (parent j) \<le> pri h j"
      using assms(1) j1 less.prems(2) parent_nonneg[OF j1] by (simp add: heap_order_iff ok_from_def)
    moreover have "pri h 0 \<le> pri h (parent j)"
      using less.hyps[of "parent j"] parent_less[OF j1] parent_nonneg[OF j1] less.prems(2) j1
      by simp
    ultimately show ?thesis by simp
  qed
qed

lemma root_minimal_entries:
  assumes "heap_order h" "hSize h \<le> int (length (A h))" "x \<in> set (entries h)"
  shows "priority (A h ! 0) \<le> priority x"
proof -
  from assms(3) obtain k where k: "k < length (entries h)" "x = entries h ! k"
    by (auto simp: in_set_conv_nth)
  then have "k < nat (hSize h)" by (simp add: entries_def)
  then have "pri h 0 \<le> pri h (int k)" using root_minimal[OF assms(1), of "int k"] by simp
  moreover have "x = A h ! k" using k by (simp add: entries_def)
  ultimately show ?thesis by (simp add: pri_def)
qed

subsection \<open>Sequences of inserts and extractions\<close>

lemma un_mk_Pair: "un_Pair (mk_Pair x) = x"
  by (simp add: un_Pair_def mk_Pair_def)

lemma insert_all_ok:
  assumes "wf_heap h" "hSize h + int (length xs) \<le> hCapacity h"
  shows "\<exists>h'. insert_all h xs = Inr h' \<and> wf_heap h' \<and> hSize h' = hSize h + int (length xs)
           \<and> hCapacity h' = hCapacity h
           \<and> mset (entries h') = mset (entries h) + mset (map mk_Pair xs)
           \<and> (heap_order h \<longrightarrow> heap_order h')"
  using assms
proof (induction xs arbitrary: h)
  case Nil
  then show ?case by simp
next
  case (Cons x xs)
  obtain e p where x: "x = (e, p)" by (cases x)
  have "in_bounds h (hSize h)" using Cons.prems by (simp add: wf_heap_def in_bounds_def)
  from insert_heap_succeeds[OF this] obtain h1 where i: "insert_heap h e p = Inr h1" by blast
  note f = insert_heap_fields[OF i]
  have w: "wf_heap h1" by (rule insert_heap_wf[OF i Cons.prems(1)])
  have "hSize h1 + int (length xs) \<le> hCapacity h1" using f Cons.prems(2) by simp
  from Cons.IH[OF w this] obtain h' where h':
    "insert_all h1 xs = Inr h'" "wf_heap h'" "hSize h' = hSize h1 + int (length xs)"
    "hCapacity h' = hCapacity h1"
    "mset (entries h') = mset (entries h1) + mset (map mk_Pair xs)"
    "heap_order h1 \<longrightarrow> heap_order h'"
    by blast
  have "insert_all h (x # xs) = Inr h'" using i h'(1) by (simp add: x)
  moreover have "mset (entries h') = mset (entries h) + mset (map mk_Pair (x # xs))"
    using h'(5) insert_heap_mset[OF i] by (simp add: x mk_Pair_def)
  moreover have "heap_order h \<longrightarrow> heap_order h'"
    using h'(6) insert_heap_order[OF i] by blast
  ultimately show ?case using h'(2,3,4) f by auto
qed

lemma extract_n_ok:
  assumes "wf_heap h" "heap_order h" "int n \<le> hSize h" "hSize h \<le> 1073741825"
  shows "\<exists>ys h'. extract_n n h = Inr (map element ys, h') \<and> length ys = n
           \<and> sorted (map priority ys)
           \<and> mset (entries h) = mset ys + mset (entries h')
           \<and> (\<forall>y \<in> set ys. \<forall>z \<in> set (entries h). priority (A h ! 0) \<le> priority y)
           \<and> wf_heap h' \<and> heap_order h' \<and> hSize h' = hSize h - int n"
  using assms
proof (induction n arbitrary: h)
  case 0
  then show ?case by simp
next
  case (Suc n)
  have s1: "1 \<le> hSize h" using Suc.prems(3) by simp
  have len: "hSize h \<le> int (length (A h))" using Suc.prems(1) by (simp add: wf_heap_def)
  from extractMin_succeeds[OF s1 len Suc.prems(4)]
  obtain m h1 where e: "extractMin h = Inr (m, h1)" by blast
  note f = extractMin_fields[OF e]
  have w1: "wf_heap h1" by (rule extractMin_wf[OF e Suc.prems(1) s1])
  have o1: "heap_order h1" by (rule extractMin_order[OF e Suc.prems(2)])
  have ms: "mset (entries h) = add_mset (A h ! 0) (mset (entries h1))"
    by (rule extractMin_mset[OF e s1])
  have "int n \<le> hSize h1" "hSize h1 \<le> 1073741825" using f(1) Suc.prems(3,4) by simp_all
  from Suc.IH[OF w1 o1 this] obtain ys h' where r:
    "extract_n n h1 = Inr (map element ys, h')" "length ys = n" "sorted (map priority ys)"
    "mset (entries h1) = mset ys + mset (entries h')"
    "wf_heap h'" "heap_order h'" "hSize h' = hSize h1 - int n"
    by blast
  let ?ys = "A h ! 0 # ys"
  have m: "m = element (A h ! 0)" by (rule extractMin_Inr(3)[OF e])
  have 1: "extract_n (Suc n) h = Inr (map element ?ys, h')" using e r(1) m by simp
  have sub: "set ys \<subseteq> set (entries h)"
  proof
    fix y assume "y \<in> set ys"
    then have "y \<in># mset (entries h)" unfolding ms r(4) by simp
    then show "y \<in> set (entries h)" by simp
  qed
  have low: "priority (A h ! 0) \<le> priority y" if "y \<in> set (entries h)" for y
    by (rule root_minimal_entries[OF Suc.prems(2) len that])
  have 2: "sorted (map priority ?ys)" using r(3) sub low by auto
  have 3: "mset (entries h) = mset ?ys + mset (entries h')" using ms r(4) by simp
  have 4: "\<forall>y \<in> set ?ys. \<forall>z \<in> set (entries h). priority (A h ! 0) \<le> priority y"
    using sub low by auto
  have "extract_n (Suc n) h = Inr (map element ?ys, h') \<and> length ?ys = Suc n
           \<and> sorted (map priority ?ys)
           \<and> mset (entries h) = mset ?ys + mset (entries h')
           \<and> (\<forall>y \<in> set ?ys. \<forall>z \<in> set (entries h). priority (A h ! 0) \<le> priority y)
           \<and> wf_heap h' \<and> heap_order h' \<and> hSize h' = hSize h - int (Suc n)"
    using 1 2 3 4 r(2,5,6,7) f(1) by simp
  then show ?case by blast
qed

subsection \<open>heapify and the merging constructor\<close>

lemma heapify_loop_unfold:
  "heapify_loop h i =
     (if 0 \<le> i then (case trickleDown h i of Inl e \<Rightarrow> Inl e | Inr h' \<Rightarrow> heapify_loop h' (i - 1))
      else Inr h)"
  by (subst heapify_loop.simps) simp

lemma heapify_loop_restores:
  assumes "heapify_loop h i = Inr h'" "ok_from (i + 1) (hSize h) h" "- 1 \<le> i"
  shows "ok_from 0 (hSize h) h' \<and> hSize h' = hSize h \<and> hCapacity h' = hCapacity h
           \<and> length (A h') = length (A h) \<and> mset (entries h') = mset (entries h)"
  using assms
proof (induction "nat (i + 1)" arbitrary: h i rule: less_induct)
  case less
  show ?case
  proof (cases "0 \<le> i")
    case False
    with less.prems have "i = - 1" "h' = h" by (simp_all add: heapify_loop_unfold)
    with less.prems(2) show ?thesis by simp
  next
    case True
    with less.prems(1) obtain h1 where t: "trickleDown h i = Inr h1"
      and l: "heapify_loop h1 (i - 1) = Inr h'"
      by (auto simp: heapify_loop_unfold[of h i] split: sum.splits)
    note f = trickleDown_fields[OF t]
    have "down_inv i h i"
      unfolding down_inv_def
    proof (intro conjI allI impI)
      fix j assume j: "1 \<le> j \<and> j < hSize h \<and> i \<le> parent j \<and> parent j \<noteq> i"
      then have "1 \<le> j \<and> j < hSize h \<and> i + 1 \<le> parent j" by simp
      with less.prems(2) show "pri h (parent j) \<le> pri h j" unfolding ok_from_def by blast
    next
      fix j assume "1 \<le> j \<and> j < hSize h \<and> parent j = i \<and> 1 \<le> i \<and> i \<le> parent i"
      then have False using parent_less[of i] by simp
      then show "pri h (parent i) \<le> pri h j" ..
    qed
    from trickleDown_restores[OF t this _ True] have "ok_from (i - 1 + 1) (hSize h1) h1"
      using f by simp
    moreover have "nat (i - 1 + 1) < nat (i + 1)" "- 1 \<le> i - 1" using True by simp_all
    ultimately have "ok_from 0 (hSize h1) h' \<and> hSize h' = hSize h1 \<and> hCapacity h' = hCapacity h1
           \<and> length (A h') = length (A h1) \<and> mset (entries h') = mset (entries h1)"
      using less.hyps[OF _ l] by blast
    then show ?thesis using f trickleDown_mset_entries[OF t] by simp
  qed
qed

lemma heapify_loop_succeeds:
  assumes "2 * i + 2 \<le> hSize h" "hSize h \<le> int (length (A h))" "hSize h \<le> 1073741824"
  shows "\<exists>h'. heapify_loop h i = Inr h'"
  using assms
proof (induction "nat (i + 1)" arbitrary: h i rule: less_induct)
  case less
  show ?case
  proof (cases "0 \<le> i")
    case False
    then show ?thesis by (simp add: heapify_loop_unfold)
  next
    case True
    have "2 * i + 2 \<le> INT_MAX" using less.prems(1,3) by (simp add: INT_MAX_def)
    from trickleDown_succeeds[OF True this less.prems(3,2)]
    obtain h1 where t: "trickleDown h i = Inr h1" ..
    note f = trickleDown_fields[OF t]
    have "nat (i - 1 + 1) < nat (i + 1)" using True by simp
    moreover have "2 * (i - 1) + 2 \<le> hSize h1" "hSize h1 \<le> int (length (A h1))"
      "hSize h1 \<le> 1073741824"
      using f less.prems by simp_all
    ultimately obtain h' where "heapify_loop h1 (i - 1) = Inr h'"
      using less.hyps by blast
    with t True show ?thesis by (simp add: heapify_loop_unfold[of h i])
  qed
qed

lemma ok_from_half: "ok_from (n div 2) n h"
  unfolding ok_from_def parent_def by (intro allI impI) linarith

lemma heapify_restores:
  assumes "heapify h = Inr h'" "0 \<le> hSize h"
  shows "heap_order h' \<and> hSize h' = hSize h \<and> hCapacity h' = hCapacity h
           \<and> length (A h') = length (A h) \<and> mset (entries h') = mset (entries h)"
proof -
  let ?i = "hSize h div 2 - 1"
  have l: "heapify_loop h ?i = Inr h'" using assms by (simp add: heapify_def c_div_2)
  have "ok_from (?i + 1) (hSize h) h" using ok_from_half[of "hSize h" h] by simp
  moreover have "- 1 \<le> ?i" using assms(2) by simp
  ultimately show ?thesis using heapify_loop_restores[OF l] by (simp add: heap_order_iff)
qed

lemma heapify_succeeds:
  assumes "0 \<le> hSize h" "hSize h \<le> int (length (A h))" "hSize h \<le> 1073741824"
  shows "\<exists>h'. heapify h = Inr h'"
proof -
  have "2 * (hSize h div 2 - 1) + 2 \<le> hSize h" by presburger
  from heapify_loop_succeeds[OF this assms(2,3)] show ?thesis
    using assms(1) by (simp add: heapify_def c_div_2)
qed

lemma new_Pairs_Inr: "new_Pairs junk n = Inr a \<Longrightarrow> 0 \<le> n \<and> int (length a) = n"
  by (auto simp: new_Pairs_def split: if_splits)

lemma copy_Pairs_Inr:
  assumes "copy_Pairs src n dst off = Inr r"
  shows "0 \<le> n" "0 \<le> off" "off + n \<le> int (length dst)" "length r = length dst"
    "r = take (nat off) dst @ take (nat n) src @ drop (nat (off + n)) dst"
    "n \<le> int (length src)"
  using assms by (auto simp: copy_Pairs_def split: if_splits)

lemma Heap_merge_Inr:
  assumes "Heap_merge junk h1 h2 c = Inr h"
  shows "wf_heap h \<and> heap_order h \<and> hSize h = hSize h1 + hSize h2
           \<and> hCapacity h = hSize h1 + hSize h2 + c
           \<and> mset (entries h) = mset (entries h1) + mset (entries h2)"
proof -
  let ?s = "hSize h1 + hSize h2"
  from assms obtain a a1 a2 where
    n: "new_Pairs junk (?s + c) = Inr a"
    and c1: "copy_Pairs (A h1) (hSize h1) a 0 = Inr a1"
    and c2: "copy_Pairs (A h2) (hSize h2) a1 (hSize h1) = Inr a2"
    and hp: "heapify \<lparr>A = a2, hCapacity = ?s + c, hSize = ?s\<rparr> = Inr h"
    by (auto simp: Heap_merge_def Let_def split: if_splits sum.splits)
  note N = new_Pairs_Inr[OF n]
  note C1 = copy_Pairs_Inr[OF c1]
  note C2 = copy_Pairs_Inr[OF c2]
  let ?g = "\<lparr>A = a2, hCapacity = ?s + c, hSize = ?s\<rparr>"
  have s0: "0 \<le> hSize ?g" using C1(1) C2(1) by simp
  note H = heapify_restores[OF hp s0]
  have len: "int (length a2) = ?s + c" using N C1(4) C2(4) by simp
  have sc: "?s \<le> ?s + c" using C2(3) C1(4) N by simp
  have "take (nat (hSize h1)) a1 = take (nat (hSize h1)) (A h1)"
    using C1(1,3,6) by (simp add: C1(5))
  then have "a2 = entries h1 @ take (nat (hSize h2)) (A h2) @ drop (nat ?s) a1"
    by (simp add: C2(5) entries_def)
  then have "take (nat ?s) a2 = entries h1 @ entries h2"
    using C1(1,6) C2(1,6) by (simp add: entries_def nat_add_distrib)
  then have "mset (entries ?g) = mset (entries h1) + mset (entries h2)"
    by (simp add: entries_def)
  then show ?thesis using H len sc s0 by (simp add: wf_heap_def)
qed

lemma Heap_merge_succeeds:
  assumes "wf_heap h1" "wf_heap h2" "0 \<le> c"
    "hSize h1 + hSize h2 + c \<le> INT_MAX" "hSize h1 + hSize h2 \<le> 1073741824"
  shows "\<exists>h. Heap_merge junk h1 h2 c = Inr h"
proof -
  let ?s = "hSize h1 + hSize h2"
  let ?a = "map junk [0..<nat (?s + c)]"
  have w: "0 \<le> hSize h1" "0 \<le> hSize h2" "hSize h1 \<le> int (length (A h1))"
    "hSize h2 \<le> int (length (A h2))"
    using assms(1,2) by (simp_all add: wf_heap_def)
  have r: "int_range ?s" "int_range (?s + c)"
    using w assms(3,4) by (simp_all add: int_range_def INT_MIN_def INT_MAX_def)
  have n: "new_Pairs junk (?s + c) = Inr ?a" using w assms(3) by (simp add: new_Pairs_def)
  obtain a1 where c1: "copy_Pairs (A h1) (hSize h1) ?a 0 = Inr a1"
    using w assms(3) by (simp add: copy_Pairs_def)
  have l1: "length a1 = length ?a" by (rule copy_Pairs_Inr(4)[OF c1])
  obtain a2 where c2: "copy_Pairs (A h2) (hSize h2) a1 (hSize h1) = Inr a2"
    using w assms(3) l1 by (simp add: copy_Pairs_def)
  have l2: "length a2 = length ?a" using copy_Pairs_Inr(4)[OF c2] l1 by simp
  let ?g = "\<lparr>A = a2, hCapacity = ?s + c, hSize = ?s\<rparr>"
  have "\<exists>h. heapify ?g = Inr h"
    using w assms(3,5) l2 by (intro heapify_succeeds) simp_all
  then show ?thesis using r n c1 c2 by (simp add: Heap_merge_def Let_def)
qed

subsection \<open>The other constructors\<close>

lemma Heap_default_Inr: "Heap_default junk = Inr h \<Longrightarrow> wf_heap h \<and> hSize h = 0 \<and> hCapacity h = 10"
  by (auto simp: Heap_default_def new_Pairs_def wf_heap_def)

lemma Heap_c_Inr: "Heap_c junk c = Inr h \<Longrightarrow> wf_heap h \<and> hSize h = 0 \<and> hCapacity h = c"
  by (auto simp: Heap_c_def new_Pairs_def wf_heap_def split: if_splits)

lemma Heap_c_succeeds: "0 \<le> c \<Longrightarrow> \<exists>h. Heap_c junk c = Inr h"
  by (simp add: Heap_c_def new_Pairs_def)

lemma heap_order_empty: "hSize h = 0 \<Longrightarrow> heap_order h"
  by (simp add: heap_order_def)

subsection \<open>The loop of the constructor from two arrays\<close>

lemma arrays_loop_unfold:
  "arrays_loop Priorities Elements s i h =
     (if i < s then
        (if \<not> (0 \<le> i \<and> i < int (length Elements)) \<or> \<not> (0 \<le> i \<and> i < int (length Priorities))
         then Inl OutOfBounds
         else
           (case insert_heap h (Elements ! nat i) (Priorities ! nat i) of
              Inl err \<Rightarrow> Inl err
            | Inr h' \<Rightarrow> arrays_loop Priorities Elements s (i + 1) h'))
      else Inr h)"
  by (subst arrays_loop.simps) simp

lemma arrays_loop_invariant:
  assumes "arrays_loop Priorities Elements s i h = Inr h'" "wf_heap h" "heap_order h"
  shows "wf_heap h' \<and> heap_order h'"
  using assms
proof (induction "nat (s - i)" arbitrary: i h rule: less_induct)
  case less
  show ?case
  proof (cases "i < s")
    case False
    with less.prems show ?thesis by (simp add: arrays_loop_unfold[of _ _ s i])
  next
    case True
    with less.prems(1) obtain h1 where
      i: "insert_heap h (Elements ! nat i) (Priorities ! nat i) = Inr h1"
      and l: "arrays_loop Priorities Elements s (i + 1) h1 = Inr h'"
      by (auto simp: arrays_loop_unfold[of _ _ s i] split: if_splits sum.splits)
    have "nat (s - (i + 1)) < nat (s - i)" using True by simp
    from less.hyps[OF this l insert_heap_wf[OF i less.prems(2)] insert_heap_order[OF i less.prems(3)]]
    show ?thesis .
  qed
qed

lemma arrays_loop_insert_all:
  assumes "0 \<le> i" "s \<le> int (length Elements)" "s \<le> int (length Priorities)"
  shows "arrays_loop Priorities Elements s i h =
     insert_all h (zip (drop (nat i) (take (nat s) Elements))
                       (drop (nat i) (take (nat s) Priorities)))"
  using assms
proof (induction "nat (s - i)" arbitrary: i h rule: less_induct)
  case less
  show ?case
  proof (cases "i < s")
    case False
    then have "drop (nat i) (take (nat s) Elements) = []" by simp
    with False show ?thesis by (simp add: arrays_loop_unfold[of _ _ s i])
  next
    case True
    let ?E = "take (nat s) Elements" and ?P = "take (nat s) Priorities"
    have b: "nat i < length ?E" "nat i < length ?P" using True less.prems by simp_all
    have d: "drop (nat i) ?E = Elements ! nat i # drop (nat (i + 1)) ?E"
      "drop (nat i) ?P = Priorities ! nat i # drop (nat (i + 1)) ?P"
      using b less.prems(1) True
      by (simp_all add: Cons_nth_drop_Suc[symmetric] nat_add_distrib)
    have m: "nat (s - (i + 1)) < nat (s - i)" "0 \<le> i + 1" using True less.prems(1) by simp_all
    have rec: "arrays_loop Priorities Elements s (i + 1) h1 =
        insert_all h1 (zip (drop (nat (i + 1)) ?E) (drop (nat (i + 1)) ?P))" for h1
      by (rule less.hyps[OF m(1) m(2) less.prems(2,3)])
    have ok: "0 \<le> i \<and> i < int (length Elements)" "0 \<le> i \<and> i < int (length Priorities)"
      using True less.prems by simp_all
    show ?thesis
      using True ok by (simp add: arrays_loop_unfold[of _ _ s i] d rec split: sum.splits)
  qed
qed

subsection \<open>What trickleUp leaves alone\<close>

lemma ancestors_step: "1 \<le> i \<Longrightarrow> ancestors i = parent i # ancestors (parent i)"
  by (subst ancestors.simps) simp

lemma trickleUp_frame:
  assumes "trickleUp h i = Inr h'" "0 \<le> k" "k \<noteq> i" "k \<notin> set (ancestors i)"
  shows "A h' ! nat k = A h ! nat k"
  using assms
proof (induction rule: trickleUp_run_induct)
  case (stop h i)
  show ?case by simp
next
  case (step h i h1 h')
  from step.prems(3) have k: "k \<noteq> parent i" "k \<notin> set (ancestors (parent i))"
    by (simp_all add: ancestors_step[OF step(1)])
  have "A h1 ! nat k = A h ! nat k"
    using swap_nth[OF step(4) step.prems(1)] k(1) step.prems(2) by simp
  with step.IH[OF step.prems(1) k] show ?case by simp
qed

subsection \<open>The heap order along valid runs\<close>

lemma Heap_arrays_0_Inr:
  assumes "Heap_arrays junk 0 Priorities Elements s c = Inr h"
  shows "wf_heap h \<and> heap_order h"
proof -
  from assms obtain a where n: "new_Pairs junk (s + c) = Inr a"
    and l: "arrays_loop Priorities Elements s 0 \<lparr>A = a, hCapacity = s + c, hSize = 0\<rparr> = Inr h"
    by (auto simp: Heap_arrays_def split: if_splits sum.splits)
  let ?g = "\<lparr>A = a, hCapacity = s + c, hSize = 0\<rparr>"
  have "wf_heap ?g" using new_Pairs_Inr[OF n] by (simp add: wf_heap_def)
  moreover have "heap_order ?g" by (simp add: heap_order_def)
  ultimately show ?thesis by (rule arrays_loop_invariant[OF l])
qed

lemma reachable_wf_heap_order: "reachable h \<Longrightarrow> wf_heap h \<and> heap_order h"
proof (induction rule: reachable.induct)
  case (from_default junk h)
  then show ?case using Heap_default_Inr heap_order_empty by blast
next
  case (from_capacity junk c h)
  then show ?case using Heap_c_Inr heap_order_empty by blast
next
  case (from_arrays junk Priorities Elements s c h)
  then show ?case by (rule Heap_arrays_0_Inr)
next
  case (from_merge h1 h2 junk c h)
  then show ?case using Heap_merge_Inr by blast
next
  case (by_insert h e p h')
  then show ?case using insert_heap_wf insert_heap_order by blast
next
  case (by_extractMin h m h')
  then show ?case using extractMin_wf[of h m h'] extractMin_order[of h m h'] by simp
qed

subsection \<open>A run that leaves the range of int\<close>

lemma insert_heap_next_index:
  assumes "0 \<le> m" "hSize h = m" "m < int (length (A h))"
    "\<forall>j. 0 \<le> j \<and> j < m \<longrightarrow> A h ! nat j = \<lparr>element = j, priority = j\<rparr>"
  shows "insert_heap h m m = Inr (h\<lparr>A := (A h)[nat m := \<lparr>element = m, priority = m\<rparr>], hSize := m + 1\<rparr>)"
proof -
  let ?h1 = "h\<lparr>A := (A h)[nat m := \<lparr>element = m, priority = m\<rparr>]\<rparr>"
  have b: "in_bounds h m" using assms(1,3) by (simp add: in_bounds_def)
  have "trickleUp ?h1 m = Inr ?h1"
  proof (cases "m = 0")
    case True
    then show ?thesis by (subst trickleUp.simps) simp
  next
    case False
    then have m1: "1 \<le> m" using assms(1) by simp
    have p: "0 \<le> parent m" "parent m < m" using parent_nonneg[OF m1] parent_less[OF m1] by auto
    have "A ?h1 ! nat (parent m) = \<lparr>element = parent m, priority = parent m\<rparr>"
      using p assms(4) by (simp add: eq_nat_nat_iff)
    moreover have "A ?h1 ! nat m = \<lparr>element = m, priority = m\<rparr>"
      using assms(1,3) by simp
    ultimately show ?thesis
      using False p assms(1,3)
      by (subst trickleUp.simps) (simp add: c_div_parent[OF m1] in_bounds_def)
  qed
  then show ?thesis using b assms(2) by (simp add: insert_heap_def Let_def)
qed

lemma insert_all_increasing:
  assumes "0 \<le> m" "hSize h = m" "n < int (length (A h))" "m \<le> n + 1"
    "\<forall>j. 0 \<le> j \<and> j < m \<longrightarrow> A h ! nat j = \<lparr>element = j, priority = j\<rparr>"
  shows "\<exists>h'. insert_all h (map (\<lambda>k. (k, k)) [m..n]) = Inr h' \<and> hSize h' = n + 1
           \<and> hCapacity h' = hCapacity h \<and> length (A h') = length (A h)
           \<and> (\<forall>j. 0 \<le> j \<and> j \<le> n \<longrightarrow> A h' ! nat j = \<lparr>element = j, priority = j\<rparr>)"
  using assms
proof (induction "nat (n + 1 - m)" arbitrary: m h rule: less_induct)
  case less
  show ?case
  proof (cases "m \<le> n")
    case False
    then have "[m..n] = []" "m = n + 1" using less.prems(4) by simp_all
    then show ?thesis using less.prems by simp
  next
    case True
    let ?h1 = "h\<lparr>A := (A h)[nat m := \<lparr>element = m, priority = m\<rparr>], hSize := m + 1\<rparr>"
    have ml: "m < int (length (A h))" using True less.prems(3) by simp
    have i: "insert_heap h m m = Inr ?h1"
      by (rule insert_heap_next_index[OF less.prems(1,2) ml less.prems(5)])
    have u: "[m..n] = m # [m + 1..n]" using True by (simp add: upto_rec1)
    have inv: "\<forall>j. 0 \<le> j \<and> j < m + 1 \<longrightarrow> A ?h1 ! nat j = \<lparr>element = j, priority = j\<rparr>"
    proof (intro allI impI)
      fix j assume j: "0 \<le> j \<and> j < m + 1"
      show "A ?h1 ! nat j = \<lparr>element = j, priority = j\<rparr>"
      proof (cases "j = m")
        case True
        then show ?thesis using ml less.prems(1) by simp
      next
        case False
        then show ?thesis using j less.prems(1,5) by (simp add: eq_nat_nat_iff)
      qed
    qed
    have "nat (n + 1 - (m + 1)) < nat (n + 1 - m)" using True by simp
    from less.hyps[OF this, of ?h1] less.prems(1,3) True inv
    obtain h' where "insert_all ?h1 (map (\<lambda>k. (k, k)) [m + 1..n]) = Inr h'" "hSize h' = n + 1"
      "hCapacity h' = hCapacity h" "length (A h') = length (A h)"
      "\<forall>j. 0 \<le> j \<and> j \<le> n \<longrightarrow> A h' ! nat j = \<lparr>element = j, priority = j\<rparr>"
      by auto
    then show ?thesis using i by (simp add: u)
  qed
qed

lemma length_big_pairs: "length big_pairs = 1073741826"
  by (simp add: big_pairs_def)

lemma nth_big_pairs: "j < 1073741826 \<Longrightarrow> big_pairs ! j = (int j, int j)"
  by (simp add: big_pairs_def)

lemma insert_all_big: "insert_all big_empty big_pairs = Inr big_full"
proof -
  have "\<exists>h'. insert_all big_empty (map (\<lambda>k. (k, k)) [0..1073741825]) = Inr h'
      \<and> hSize h' = 1073741825 + 1
      \<and> hCapacity h' = hCapacity big_empty \<and> length (A h') = length (A big_empty)
      \<and> (\<forall>j. 0 \<le> j \<and> j \<le> 1073741825 \<longrightarrow> A h' ! nat j = \<lparr>element = j, priority = j\<rparr>)"
    by (rule insert_all_increasing) (simp_all add: big_empty_def)
  then obtain h' where h': "insert_all big_empty big_pairs = Inr h'" "hSize h' = 1073741826"
    "hCapacity h' = 1073741826" "length (A h') = 1073741826"
    "\<forall>j. 0 \<le> j \<and> j \<le> 1073741825 \<longrightarrow> A h' ! nat j = \<lparr>element = j, priority = j\<rparr>"
    by (auto simp: big_pairs_def big_empty_def)
  have "A h' = map mk_Pair big_pairs"
  proof (rule nth_equalityI)
    show "length (A h') = length (map mk_Pair big_pairs)"
      using h'(4) by (simp add: length_big_pairs)
  next
    fix k assume "k < length (A h')"
    then have k: "k < 1073741826" using h'(4) by simp
    then have "A h' ! nat (int k) = \<lparr>element = int k, priority = int k\<rparr>"
      using h'(5)[rule_format, of "int k"] by simp
    then show "A h' ! k = map mk_Pair big_pairs ! k"
      using k by (simp add: length_big_pairs nth_big_pairs mk_Pair_def)
  qed
  then have "h' = big_full" using h'(2,3) by (simp add: big_full_def)
  with h'(1) show ?thesis by simp
qed

lemma left_spine_overflows:
  assumes "i + 1 = 2 ^ t" "t \<le> 30" "hSize h = 1073741825" "hSize h \<le> int (length (A h))"
    "\<forall>j. i < j \<and> j < hSize h \<longrightarrow> pri h j = j" "pri h i = 1073741825"
  shows "trickleDown h i = Inl SignedOverflow"
  using assms
proof (induction "30 - t" arbitrary: t i h rule: less_induct)
  case less
  have "(1 :: int) \<le> 2 ^ t" by simp
  then have i0: "0 \<le> i" using less.prems(1) by linarith
  show ?case
  proof (cases "t = 30")
    case True
    then have "i = 1073741823" using less.prems(1) by simp
    then show ?thesis by (subst trickleDown.simps) (simp add: INT_MAX_def INT_MIN_def)
  next
    case False
    then have t: "t \<le> 29" using less.prems(2) by simp
    have "(2 :: int) ^ t \<le> 2 ^ 29" using t by (intro power_increasing) simp_all
    then have ib: "i + 1 \<le> 536870912" using less.prems(1) by simp
    let ?l = "2 * i + 1"
    have r: "2 * i + 2 < hSize h" "2 * i + 2 \<le> INT_MAX"
      using ib less.prems(3) by (simp_all add: INT_MAX_def)
    have pl: "pri h ?l = ?l" "pri h (2 * i + 2) = 2 * i + 2"
      using less.prems(5) r(1) i0 by simp_all
    have bi: "in_bounds h i" "in_bounds h ?l"
      using i0 r(1) less.prems(4) by (simp_all add: in_bounds_def)
    from swap_ok[OF bi] obtain h1 where s: "swap h i ?l = Inr h1" ..
    note f = swap_fields[OF s]
    have u: "trickleDown h i = trickleDown h1 ?l"
      using r(1) pl less.prems(6) s ib
      by (simp add: trickleDown_unfold[OF i0 r(2) less.prems(4)])
    have n1: "?l + 1 = 2 ^ Suc t" using less.prems(1) by simp
    have inv: "\<forall>j. ?l < j \<and> j < hSize h1 \<longrightarrow> pri h1 j = j"
    proof (intro allI impI)
      fix j assume j: "?l < j \<and> j < hSize h1"
      then have "pri h1 j = pri h j" using pri_swap[OF s, of j] i0 by simp
      then show "pri h1 j = j" using less.prems(5) j f(1) i0 by simp
    qed
    have top: "pri h1 ?l = 1073741825"
      using pri_swap[OF s, of ?l] i0 less.prems(6) by simp
    have "trickleDown h1 ?l = Inl SignedOverflow"
      by (rule less.hyps[OF _ n1 _ _ _ inv top])
         (use t f less.prems(3,4) in simp_all)
    with u show ?thesis by simp
  qed
qed

lemma extractMin_big_full: "extractMin big_full = Inl SignedOverflow"
proof -
  let ?h2 = "big_full\<lparr>A := (A big_full)[0 := A big_full ! nat (hSize big_full - 1)],
      hSize := hSize big_full - 1\<rparr>"
  have len: "length (A big_full) = 1073741826" by (simp add: big_full_def length_big_pairs)
  have sz: "hSize big_full = 1073741826" by (simp add: big_full_def)
  have nth: "A big_full ! nat j = \<lparr>element = j, priority = j\<rparr>" if "0 \<le> j" "j < 1073741826" for j
    using that by (simp add: big_full_def length_big_pairs nth_big_pairs mk_Pair_def)
  have "trickleDown ?h2 0 = Inl SignedOverflow"
  proof (rule left_spine_overflows[where t = 0])
    show "\<forall>j. 0 < j \<and> j < hSize ?h2 \<longrightarrow> pri ?h2 j = j"
    proof (intro allI impI)
      fix j assume j: "0 < j \<and> j < hSize ?h2"
      then have "nat j \<noteq> 0" by simp
      then have "A ?h2 ! nat j = A big_full ! nat j" by simp
      then show "pri ?h2 j = j" using nth[of j] j sz by (simp add: pri_def)
    qed
    show "pri ?h2 0 = 1073741825"
      using nth[of 1073741825] len by (simp add: pri_def sz)
  qed (simp_all add: sz len)
  moreover have "in_bounds big_full 0" "in_bounds big_full (hSize big_full - 1)"
    by (simp_all add: in_bounds_def len sz)
  ultimately show ?thesis by (simp add: extractMin_def Let_def)
qed

lemma extract_n_big_full: "extract_n (length big_pairs) big_full = Inl SignedOverflow"
proof -
  have "length big_pairs \<noteq> 0" by (simp add: length_big_pairs)
  then obtain n where n: "length big_pairs = Suc n" using not0_implies_Suc by blast
  show ?thesis by (simp only: n extract_n.simps extractMin_big_full sum.case)
qed

lemma nth_big_first:
  assumes "0 \<le> j" "j < 1073741824"
  shows "A big_first ! nat j = \<lparr>element = j, priority = j\<rparr>"
proof -
  have "[0..1073741823] ! nat j = 0 + int (nat j)"
    using assms by (intro nth_upto) simp
  then show ?thesis using assms by (simp add: big_first_def mk_Pair_def)
qed

lemma length_big_first: "length (A big_first) = 1073741824"
  by (simp add: big_first_def)

lemma wf_heap_big_first: "wf_heap big_first"
  by (simp add: wf_heap_def big_first_def)

lemma heap_order_big_first: "heap_order big_first"
  unfolding heap_order_def
proof
  fix i assume "i \<in> {1..<hSize big_first}"
  then have i: "1 \<le> i" "i < 1073741824" by (simp_all add: big_first_def)
  then have p: "0 \<le> (i - 1) div 2" "(i - 1) div 2 < 1073741824" "(i - 1) div 2 \<le> i" by linarith+
  show "priority (A big_first ! nat ((i - 1) div 2)) \<le> priority (A big_first ! nat i)"
    using i p by (simp add: nth_big_first)
qed

lemma Heap_merge_big_first:
  "Heap_merge zero_junk big_first \<lparr>A = [\<lparr>element = 0, priority = - 1\<rparr>], hCapacity = 1, hSize = 1\<rparr> 0
     = Inl SignedOverflow"
proof -
  let ?small = "\<lparr>A = [\<lparr>element = 0, priority = - 1\<rparr>], hCapacity = 1, hSize = 1\<rparr>"
  let ?a = "map zero_junk [0..<1073741825]"
  have sz: "hSize big_first = 1073741824" by (simp add: big_first_def)
  have n: "new_Pairs zero_junk 1073741825 = Inr ?a" by (simp add: new_Pairs_def)
  obtain a1 where c1: "copy_Pairs (A big_first) 1073741824 ?a 0 = Inr a1"
    by (simp add: copy_Pairs_def length_big_first)
  note C1 = copy_Pairs_Inr[OF c1]
  have l1: "length a1 = 1073741825" using C1(4) by simp
  obtain a2 where c2: "copy_Pairs [\<lparr>element = 0, priority = - 1\<rparr>] 1 a1 1073741824 = Inr a2"
    by (simp add: copy_Pairs_def l1)
  note C2 = copy_Pairs_Inr[OF c2]
  have l2: "length a2 = 1073741825" using C2(4) l1 by simp
  have a1k: "a1 ! k = A big_first ! k" if "k < 1073741824" for k
    using that by (simp add: C1(5) nth_append length_big_first)
  have a2k: "a2 ! k = A big_first ! k" if "k < 1073741824" for k
    using that a1k l1 by (simp add: C2(5) nth_append)
  have a2l: "a2 ! 1073741824 = \<lparr>element = 0, priority = - 1\<rparr>"
    using l1 by (simp add: C2(5) nth_append)
  let ?g = "\<lparr>A = a2, hCapacity = 1073741825, hSize = 1073741825\<rparr>"
  have p0: "pri ?g 536870911 = 536870911"
    using a2k[of "nat 536870911"] nth_big_first[of 536870911] by (simp add: pri_def)
  have p1: "pri ?g 1073741823 = 1073741823"
    using a2k[of "nat 1073741823"] nth_big_first[of 1073741823] by (simp add: pri_def)
  have p2: "pri ?g 1073741824 = - 1"
    using a2l by (simp add: pri_def)
  have "in_bounds ?g 536870911" "in_bounds ?g 1073741824"
    by (simp_all add: in_bounds_def l2)
  from swap_ok[OF this] obtain g1 where s: "swap ?g 536870911 1073741824 = Inr g1" ..
  have o: "trickleDown g1 1073741824 = Inl SignedOverflow"
    by (subst trickleDown.simps) (simp add: INT_MAX_def INT_MIN_def)
  have t: "trickleDown ?g 536870911 = Inl SignedOverflow"
    using p0 p1 p2 s o
    by (subst trickleDown_unfold) (simp_all add: INT_MAX_def l2)
  have "heapify ?g = Inl SignedOverflow"
    by (simp add: heapify_def c_div_2 heapify_loop_unfold[of ?g 536870911] t)
  then show ?thesis
    using n c1 c2 sz
    by (simp add: Heap_merge_def Let_def int_range_def INT_MIN_def INT_MAX_def)
qed

section \<open>The claims\<close>

subsection \<open>Round trip and sorted extraction\<close>

text \<open>
  Claim C1 says that for every multiset of \<open>n\<close> pairs inserted into an empty heap of
  sufficient capacity, \<open>n\<close> calls of \<^verbatim>\<open>extractMin\<close> return the elements ordered by
  non-decreasing priority. Counterexample: take the heap that \<^verbatim>\<open>Heap(1073741826)\<close> builds
  and insert the \<open>2^30 + 2\<close> pairs (0,0), (1,1), ..., (1073741825,1073741825) in this
  order. No insert moves anything, so slot \<open>k\<close> holds priority \<open>k\<close>. The first
  \<^verbatim>\<open>extractMin\<close> copies the last pair to the root, decrements the size to \<open>2^30 + 1\<close>
  and calls \<^verbatim>\<open>trickleDown(0)\<close>. At every node \<open>i = 2^t - 1\<close> with \<open>t < 30\<close> both
  children exist and the left one is the smaller, so the pair moves down the left spine to
  node \<open>2^30 - 1\<close>, where \<^verbatim>\<open>(2 * i) + 2\<close> is \<open>2^31\<close>, outside the range of a 32-bit int.
\<close>

theorem large_heap_counterexample:
  "Heap_c zero_junk 1073741826 = Inr big_empty
   \<and> wf_heap big_empty \<and> hSize big_empty = 0
   \<and> int (length big_pairs) = hCapacity big_empty
   \<and> insert_all big_empty big_pairs = Inr big_full
   \<and> extract_n (length big_pairs) big_full = Inl SignedOverflow"
proof -
  have "Heap_c zero_junk 1073741826 = Inr big_empty"
    by (simp add: Heap_c_def new_Pairs_def big_empty_def)
  moreover have "wf_heap big_empty" "hSize big_empty = 0"
    "int (length big_pairs) = hCapacity big_empty"
    by (simp_all add: wf_heap_def big_empty_def length_big_pairs)
  ultimately show ?thesis
    using insert_all_big extract_n_big_full by simp
qed

text \<open>
  Claim C1 as amended. Take an empty heap whose capacity field equals its number of
  allocated slots, and a list \<open>xs\<close> of at most \<open>2^30 + 1\<close> (element, priority) pairs that
  fits into the capacity. Inserting the pairs one after the other succeeds, and
  \<open>length xs\<close> calls of \<^verbatim>\<open>extractMin\<close> then succeed and return the elements of a
  rearrangement \<open>ys\<close> of \<open>xs\<close> (the same multiset of pairs) whose priorities are
  non-decreasing.
\<close>

theorem insert_all_extract_all_sorted:
  assumes "wf_heap h0" "hSize h0 = 0" "int (length xs) \<le> hCapacity h0"
    "int (length xs) \<le> 1073741825"
  shows "\<exists>h1 h2 ys. insert_all h0 xs = Inr h1
           \<and> extract_n (length xs) h1 = Inr (map fst ys, h2)
           \<and> mset ys = mset xs \<and> sorted (map snd ys)"
proof -
  have o0: "heap_order h0" using assms(2) by (simp add: heap_order_def)
  from insert_all_ok[of h0 xs] assms o0 obtain h1 where h1:
    "insert_all h0 xs = Inr h1" "wf_heap h1" "hSize h1 = int (length xs)"
    "mset (entries h1) = mset (entries h0) + mset (map mk_Pair xs)" "heap_order h1"
    by auto
  have e0: "entries h0 = []" using assms(2) by (simp add: entries_def)
  from extract_n_ok[of h1 "length xs"] h1 assms(4) obtain zs h2 where r:
    "extract_n (length xs) h1 = Inr (map element zs, h2)" "sorted (map priority zs)"
    "mset (entries h1) = mset zs + mset (entries h2)" "hSize h2 = 0"
    by auto
  have "entries h2 = []" using r(4) by (simp add: entries_def)
  with r(3) h1(4) e0 have zs: "mset zs = mset (map mk_Pair xs)" by simp
  let ?ys = "map un_Pair zs"
  have "mset ?ys = image_mset un_Pair (mset (map mk_Pair xs))" using zs by (metis mset_map)
  then have "mset ?ys = mset xs" by (simp add: image_mset.compositionality comp_def un_mk_Pair)
  moreover have "fst \<circ> un_Pair = element" "snd \<circ> un_Pair = priority"
    by (auto simp: un_Pair_def)
  ultimately have "insert_all h0 xs = Inr h1
      \<and> extract_n (length xs) h1 = Inr (map fst ?ys, h2)
      \<and> mset ?ys = mset xs \<and> sorted (map snd ?ys)"
    using h1(1) r(1,2) by simp
  then show ?thesis by blast
qed

theorem insert_all_extract_all_sorted_witness:
  "wf_heap \<lparr>A = replicate 4 \<lparr>element = 0, priority = 0\<rparr>, hCapacity = 4, hSize = 0\<rparr>
   \<and> (\<exists>h1 h2 ys.
         insert_all \<lparr>A = replicate 4 \<lparr>element = 0, priority = 0\<rparr>, hCapacity = 4, hSize = 0\<rparr>
           [(97, 5), (98, 3), (99, 8), (100, 1)] = Inr h1
         \<and> extract_n (length [(97 :: int, 5 :: int), (98, 3), (99, 8), (100, 1)]) h1
             = Inr (map fst ys, h2)
         \<and> mset ys = mset [(97 :: int, 5 :: int), (98, 3), (99, 8), (100, 1)]
         \<and> sorted (map snd ys))"
proof -
  let ?h0 = "\<lparr>A = replicate 4 \<lparr>element = 0, priority = 0\<rparr>, hCapacity = 4, hSize = 0\<rparr>"
  let ?xs = "[(97 :: int, 5 :: int), (98, 3), (99, 8), (100, 1)]"
  have w: "wf_heap ?h0" by (simp add: wf_heap_def)
  have s: "hSize ?h0 = 0" by simp
  have c: "int (length ?xs) \<le> hCapacity ?h0" by simp
  have b: "int (length ?xs) \<le> 1073741825" by simp
  show ?thesis
    by (rule conjI[OF w insert_all_extract_all_sorted[OF w s c b]])
qed

subsection \<open>The heap order after valid operations\<close>

text \<open>
  Claim C2 says that the heap order holds after any sequence of valid operations started
  from any constructor. It does hold for every heap built from the default constructor, the
  capacity constructor and the merging constructor by inserts within capacity and
  extractions from non-empty heaps (\<open>reachable_wf_heap_order\<close> above). The constructor
  from two arrays never assigns \<^verbatim>\<open>hSize\<close>. Called with count 0 and spare capacity 2 on
  storage where the \<^verbatim>\<open>hSize\<close> field happens to hold 2 and the two fresh slots hold the
  priorities 5 and 3, it yields a heap of size 2 whose slot 1 has a smaller priority than
  its parent, slot \<open>(1 - 1) div 2 = 0\<close>.
\<close>

theorem arrays_constructor_breaks_heap_order:
  "Heap_arrays junk_5_3 2 [] [] 0 2 =
     Inr \<lparr>A = [\<lparr>element = 0, priority = 5\<rparr>, \<lparr>element = 0, priority = 3\<rparr>],
          hCapacity = 2, hSize = 2\<rparr>
   \<and> size_heap \<lparr>A = [\<lparr>element = 0, priority = 5\<rparr>, \<lparr>element = 0, priority = 3\<rparr>],
          hCapacity = 2, hSize = 2\<rparr> = 2
   \<and> priority ([\<lparr>element = 0, priority = 5\<rparr>, \<lparr>element = 0, priority = 3\<rparr>] ! nat 1)
       < priority ([\<lparr>element = 0, priority = 5\<rparr>, \<lparr>element = 0, priority = 3\<rparr>]
                    ! nat ((1 - 1) div 2))"
  by code_simp

subsection \<open>Calls on an empty heap\<close>

text \<open>
  Claim C3 says that \<^verbatim>\<open>peekMin\<close> and \<^verbatim>\<open>extractMin\<close> on an empty heap fail with
  EmptyContainer. Counterexample: on the heap made by the default constructor (on storage
  that is all zero) \<^verbatim>\<open>peekMin\<close> returns the value 0 found in slot 0, and
  \<^verbatim>\<open>extractMin\<close> reads \<^verbatim>\<open>A[-1]\<close>, outside the array.
\<close>

theorem empty_heap_calls_counterexample:
  "Heap_default zero_junk =
     Inr \<lparr>A = replicate 10 \<lparr>element = 0, priority = 0\<rparr>, hCapacity = 10, hSize = 0\<rparr>
   \<and> peekMin \<lparr>A = replicate 10 \<lparr>element = 0, priority = 0\<rparr>, hCapacity = 10, hSize = 0\<rparr>
       = Inr 0
   \<and> extractMin \<lparr>A = replicate 10 \<lparr>element = 0, priority = 0\<rparr>, hCapacity = 10, hSize = 0\<rparr>
       = Inl OutOfBounds"
  by code_simp

text \<open>
  Claim C3 as amended. On a heap of size 0, \<^verbatim>\<open>peekMin\<close> returns the element stored in
  slot 0 of the array, whatever it is (or reads out of bounds when the array has no slot),
  and \<^verbatim>\<open>extractMin\<close> reads out of bounds; neither reports EmptyContainer.
\<close>

theorem empty_heap_calls:
  assumes "hSize h = 0"
  shows "peekMin h = (if A h = [] then Inl OutOfBounds else Inr (element (A h ! 0)))
       \<and> extractMin h = Inl OutOfBounds"
  using assms by (auto simp: peekMin_def extractMin_def in_bounds_def)

theorem empty_heap_calls_witness:
  "hSize \<lparr>A = [\<lparr>element = 7, priority = 1\<rparr>], hCapacity = 1, hSize = 0\<rparr> = 0
   \<and> peekMin \<lparr>A = [\<lparr>element = 7, priority = 1\<rparr>], hCapacity = 1, hSize = 0\<rparr> = Inr 7
   \<and> extractMin \<lparr>A = [\<lparr>element = 7, priority = 1\<rparr>], hCapacity = 1, hSize = 0\<rparr>
       = Inl OutOfBounds"
  using empty_heap_calls[of "\<lparr>A = [\<lparr>element = 7, priority = 1\<rparr>], hCapacity = 1, hSize = 0\<rparr>"]
  by simp

subsection \<open>Insert into a full heap\<close>

text \<open>
  Claim C4 says that \<^verbatim>\<open>insert\<close> on a heap with size = capacity fails with CapacityExceeded
  or grows the storage, and never writes outside the array. Counterexample: a heap of
  capacity 1 that holds one pair is full, and the next \<^verbatim>\<open>insert\<close> stores at \<^verbatim>\<open>A[1]\<close>,
  outside the array.
\<close>

theorem insert_full_counterexample:
  "Heap_c zero_junk 1 = Inr \<lparr>A = [\<lparr>element = 0, priority = 0\<rparr>], hCapacity = 1, hSize = 0\<rparr>
   \<and> insert_heap \<lparr>A = [\<lparr>element = 0, priority = 0\<rparr>], hCapacity = 1, hSize = 0\<rparr> 7 7
       = Inr \<lparr>A = [\<lparr>element = 7, priority = 7\<rparr>], hCapacity = 1, hSize = 1\<rparr>
   \<and> insert_heap \<lparr>A = [\<lparr>element = 7, priority = 7\<rparr>], hCapacity = 1, hSize = 1\<rparr> 9 9
       = Inl OutOfBounds"
  by code_simp

text \<open>
  Claim C4 as amended. On every heap whose size equals its capacity (the number of
  allocated slots), \<^verbatim>\<open>insert\<close> stores the new pair at \<^verbatim>\<open>A[hSize]\<close>, one slot past the
  end of the array: an out-of-bounds write, with no CapacityExceeded and no growth.
\<close>

theorem insert_full_out_of_bounds:
  assumes "hSize h = hCapacity h" "hCapacity h = int (length (A h))"
  shows "insert_heap h e p = Inl OutOfBounds"
  using assms by (simp add: insert_heap_def in_bounds_def)

theorem insert_full_out_of_bounds_witness:
  "hSize \<lparr>A = [\<lparr>element = 7, priority = 7\<rparr>], hCapacity = 1, hSize = 1\<rparr>
     = hCapacity \<lparr>A = [\<lparr>element = 7, priority = 7\<rparr>], hCapacity = 1, hSize = 1\<rparr>
   \<and> insert_heap \<lparr>A = [\<lparr>element = 7, priority = 7\<rparr>], hCapacity = 1, hSize = 1\<rparr> 9 9
       = Inl OutOfBounds"
  using insert_full_out_of_bounds
    [of "\<lparr>A = [\<lparr>element = 7, priority = 7\<rparr>], hCapacity = 1, hSize = 1\<rparr>" 9 9]
  by simp

subsection \<open>The constructor from two arrays\<close>

text \<open>
  The constructor from two arrays allocates the array and sets \<^verbatim>\<open>hCapacity\<close>, but unlike
  the other three constructors it has no \<^verbatim>\<open>hSize = 0\<close>: its first \<^verbatim>\<open>insert\<close> stores at
  whatever index the field holds. In the runs where the field happens to hold 0, the
  constructor builds the heap of size \<open>s\<close> and capacity \<open>s + c\<close> that inserting the
  first \<open>s\<close> pairs into an empty heap of that capacity gives, and four extractions from
  the heap of the specification's example return d, b, a, c (the character codes 100, 98,
  97, 99).
\<close>

lemma Heap_arrays_from_hSize_0:
  assumes "0 \<le> s" "0 \<le> c" "s + c \<le> INT_MAX"
    "s \<le> int (length Priorities)" "s \<le> int (length Elements)"
  shows "\<exists>h0 h. Heap_c junk (s + c) = Inr h0
           \<and> insert_all h0 (zip (take (nat s) Elements) (take (nat s) Priorities)) = Inr h
           \<and> Heap_arrays junk 0 Priorities Elements s c = Inr h
           \<and> hSize h = s \<and> hCapacity h = s + c"
proof -
  let ?a = "map junk [0..<nat (s + c)]"
  let ?h0 = "\<lparr>A = ?a, hCapacity = s + c, hSize = 0\<rparr>"
  let ?xs = "zip (take (nat s) Elements) (take (nat s) Priorities)"
  have n: "new_Pairs junk (s + c) = Inr ?a" using assms(1,2) by (simp add: new_Pairs_def)
  then have c0: "Heap_c junk (s + c) = Inr ?h0" by (simp add: Heap_c_def)
  have r: "int_range (s + c)"
    using assms(1,2,3) by (simp add: int_range_def INT_MIN_def)
  have len: "int (length ?xs) = s" using assms(1,4,5) by simp
  have w: "wf_heap ?h0" using assms(1,2) by (simp add: wf_heap_def)
  from insert_all_ok[OF w, of ?xs] len assms(2) obtain h where h:
    "insert_all ?h0 ?xs = Inr h" "hSize h = s" "hCapacity h = s + c"
    by auto
  have "arrays_loop Priorities Elements s 0 ?h0 = insert_all ?h0 ?xs"
    using arrays_loop_insert_all[of 0 s Elements Priorities ?h0] assms(4,5) by simp
  then have "Heap_arrays junk 0 Priorities Elements s c = Inr h"
    using r n h(1) by (simp add: Heap_arrays_def)
  with c0 h show ?thesis by blast
qed

lemma Heap_arrays_example_from_hSize_0:
  "(case Heap_arrays zero_junk 0 [5, 3, 8, 1] [97, 98, 99, 100] 4 0 of
      Inl err \<Rightarrow> Inl err
    | Inr h \<Rightarrow> (case extract_n 4 h of Inl err \<Rightarrow> Inl err | Inr (ms, h') \<Rightarrow> Inr ms))
   = Inr [100, 98, 97, 99]"
  by code_simp

text \<open>
  Claim C5 says that \<^verbatim>\<open>Heap(Priorities, Elements, count, spareCapacity)\<close> produces a heap of
  size \<open>count\<close> and capacity \<open>count + spareCapacity\<close> that holds the pairs, inserted in
  sequence order. The code does not do this when the unassigned \<^verbatim>\<open>hSize\<close> field holds
  anything but 0. With priorities [5,3,8,1], elements [a,b,c,d] (the character codes 97 to
  100), count 4 and an \<^verbatim>\<open>hSize\<close> field that happens to hold 1: with spare capacity 0 the
  fourth \<^verbatim>\<open>insert\<close> stores at \<^verbatim>\<open>A[4]\<close>, outside the four allocated slots; with spare
  capacity 1 the heap ends with size 5, not 4, and its minimum is the content of the never
  written slot 0, not the element d.
\<close>

theorem arrays_constructor_uninitialised_hSize:
  "Heap_arrays zero_junk 1 [5, 3, 8, 1] [97, 98, 99, 100] 4 0 = Inl OutOfBounds
   \<and> Heap_arrays zero_junk 1 [5, 3, 8, 1] [97, 98, 99, 100] 4 1 =
       Inr \<lparr>A = [\<lparr>element = 0, priority = 0\<rparr>, \<lparr>element = 100, priority = 1\<rparr>,
                 \<lparr>element = 98, priority = 3\<rparr>, \<lparr>element = 99, priority = 8\<rparr>,
                 \<lparr>element = 97, priority = 5\<rparr>],
            hCapacity = 5, hSize = 5\<rparr>
   \<and> size_heap \<lparr>A = [\<lparr>element = 0, priority = 0\<rparr>, \<lparr>element = 100, priority = 1\<rparr>,
                 \<lparr>element = 98, priority = 3\<rparr>, \<lparr>element = 99, priority = 8\<rparr>,
                 \<lparr>element = 97, priority = 5\<rparr>],
            hCapacity = 5, hSize = 5\<rparr> = 5
   \<and> peekMin \<lparr>A = [\<lparr>element = 0, priority = 0\<rparr>, \<lparr>element = 100, priority = 1\<rparr>,
                 \<lparr>element = 98, priority = 3\<rparr>, \<lparr>element = 99, priority = 8\<rparr>,
                 \<lparr>element = 97, priority = 5\<rparr>],
            hCapacity = 5, hSize = 5\<rparr> = Inr 0"
  by code_simp

subsection \<open>Arguments the constructors do not validate\<close>

text \<open>
  Claim C6 says that construction fails with InvalidArgument when the capacity or the count
  is negative or an input sequence is shorter than the count. Counterexample: count -1 with
  spare capacity 5 builds a heap of capacity 4 (on storage where \<^verbatim>\<open>hSize\<close> starts at 0);
  and with count 2 and sequences of length 1 the first pair is inserted and the second
  read leaves the input arrays.
\<close>

theorem constructor_arguments_counterexample:
  "Heap_arrays zero_junk 0 [] [] (- 1) 5 =
     Inr \<lparr>A = replicate 4 \<lparr>element = 0, priority = 0\<rparr>, hCapacity = 4, hSize = 0\<rparr>
   \<and> Heap_arrays zero_junk 0 [5] [97] 2 0 = Inl OutOfBounds"
  by code_simp

text \<open>
  Claim C6 as amended. Construction fails, before any heap is produced, whenever the
  requested capacity is negative: \<^verbatim>\<open>Heap(c)\<close> with \<open>c < 0\<close>, the constructor from two
  arrays with \<open>s + c < 0\<close>, the merging constructor with the two sizes plus \<open>c\<close> below 0
  (the sums being in the range of int). The failure is the exception of the array
  allocation; the source has no InvalidArgument.
\<close>

theorem negative_capacity_fails:
  "(c < 0 \<longrightarrow> Heap_c junk c = Inl BadArrayNewLength)
   \<and> (int_range (s + c) \<and> s + c < 0
        \<longrightarrow> Heap_arrays junk hSize0 Priorities Elements s c = Inl BadArrayNewLength)
   \<and> (int_range (hSize h1 + hSize h2) \<and> int_range (hSize h1 + hSize h2 + c)
        \<and> hSize h1 + hSize h2 + c < 0
        \<longrightarrow> Heap_merge junk h1 h2 c = Inl BadArrayNewLength)"
  by (simp add: Heap_c_def Heap_arrays_def Heap_merge_def new_Pairs_def Let_def)

theorem negative_capacity_fails_witness:
  "Heap_c zero_junk (- 1) = Inl BadArrayNewLength
   \<and> Heap_arrays zero_junk 0 [] [] 2 (- 3) = Inl BadArrayNewLength
   \<and> Heap_merge zero_junk \<lparr>A = [], hCapacity = 0, hSize = 0\<rparr>
        \<lparr>A = [], hCapacity = 0, hSize = 0\<rparr> (- 1) = Inl BadArrayNewLength"
  using negative_capacity_fails[of "- 1" zero_junk 2 0 "[]" "[]"
      "\<lparr>A = [], hCapacity = 0, hSize = 0\<rparr>" "\<lparr>A = [], hCapacity = 0, hSize = 0\<rparr>"]
    negative_capacity_fails[of "- 3" zero_junk 2 0 "[]" "[]"
      "\<lparr>A = [], hCapacity = 0, hSize = 0\<rparr>" "\<lparr>A = [], hCapacity = 0, hSize = 0\<rparr>"]
  by (simp add: int_range_def INT_MIN_def INT_MAX_def)

subsection \<open>Merging two heaps\<close>

text \<open>
  Claim C7 says that for every pair of heaps and every spare capacity \<open>\<ge> 0\<close> the merging
  constructor produces a heap with the union of the entries, the sum of the sizes, and
  capacity size + spare, in heap order. Two counterexamples. For a heap with one entry, an
  empty heap and spare capacity 2147483647 the sum \<^verbatim>\<open>hSize + c\<close> leaves the range of int.
  For the full heap of \<open>2^30\<close> entries whose slot \<open>k\<close> holds priority \<open>k\<close>, a heap with
  the one entry of priority -1 and spare capacity 0, the new size is \<open>2^30 + 1\<close>; the
  first round of \<^verbatim>\<open>heapify\<close>, at node \<open>2^29 - 1\<close>, finds the new entry in the right
  child, slot \<open>2^30\<close>, swaps and calls \<^verbatim>\<open>trickleDown(1073741824)\<close>, where
  \<^verbatim>\<open>2 * i\<close> leaves the range of int.
\<close>

theorem merge_counterexample:
  "wf_heap \<lparr>A = [\<lparr>element = 7, priority = 7\<rparr>], hCapacity = 1, hSize = 1\<rparr>
   \<and> wf_heap \<lparr>A = [], hCapacity = 0, hSize = 0\<rparr>
   \<and> Heap_merge zero_junk \<lparr>A = [\<lparr>element = 7, priority = 7\<rparr>], hCapacity = 1, hSize = 1\<rparr>
        \<lparr>A = [], hCapacity = 0, hSize = 0\<rparr> 2147483647 = Inl SignedOverflow
   \<and> wf_heap big_first \<and> heap_order big_first \<and> size_heap big_first = 1073741824
   \<and> wf_heap \<lparr>A = [\<lparr>element = 0, priority = - 1\<rparr>], hCapacity = 1, hSize = 1\<rparr>
   \<and> Heap_merge zero_junk big_first
        \<lparr>A = [\<lparr>element = 0, priority = - 1\<rparr>], hCapacity = 1, hSize = 1\<rparr> 0 = Inl SignedOverflow"
proof -
  have "wf_heap \<lparr>A = [\<lparr>element = 7, priority = 7\<rparr>], hCapacity = 1, hSize = 1\<rparr>
   \<and> wf_heap \<lparr>A = [], hCapacity = 0, hSize = 0\<rparr>
   \<and> Heap_merge zero_junk \<lparr>A = [\<lparr>element = 7, priority = 7\<rparr>], hCapacity = 1, hSize = 1\<rparr>
        \<lparr>A = [], hCapacity = 0, hSize = 0\<rparr> 2147483647 = Inl SignedOverflow"
    by code_simp
  moreover have "size_heap big_first = 1073741824"
    by (simp add: size_heap_def big_first_def)
  moreover have "wf_heap \<lparr>A = [\<lparr>element = 0, priority = - 1\<rparr>], hCapacity = 1, hSize = 1\<rparr>"
    by (simp add: wf_heap_def)
  ultimately show ?thesis
    using wf_heap_big_first heap_order_big_first Heap_merge_big_first by simp
qed

text \<open>
  Claim C7 as amended. For every pair of well-formed heaps (size between 0 and the capacity,
  capacity equal to the number of allocated slots) and every spare capacity \<open>c \<ge> 0\<close> such
  that the new capacity \<open>size1 + size2 + c\<close> is at most \<^verbatim>\<open>INT_MAX\<close> and the new size
  \<open>size1 + size2\<close> is at most \<open>2^30\<close>, the merging constructor produces a well-formed heap in heap order whose
  entries are the union of the entries of the two heaps, whose size is \<open>size1 + size2\<close>
  and whose capacity is \<open>size1 + size2 + c\<close>.
\<close>

theorem merge_correct:
  assumes "wf_heap h1" "wf_heap h2" "0 \<le> c"
    "hSize h1 + hSize h2 + c \<le> INT_MAX" "hSize h1 + hSize h2 \<le> 1073741824"
  shows "\<exists>h. Heap_merge junk h1 h2 c = Inr h
           \<and> mset (entries h) = mset (entries h1) + mset (entries h2)
           \<and> size_heap h = size_heap h1 + size_heap h2
           \<and> capacity h = size_heap h1 + size_heap h2 + c
           \<and> heap_order h \<and> wf_heap h"
proof -
  from Heap_merge_succeeds[OF assms] obtain h where h: "Heap_merge junk h1 h2 c = Inr h" ..
  from Heap_merge_Inr[OF h] h show ?thesis
    by (auto simp: size_heap_def capacity_def)
qed

theorem merge_correct_witness:
  "wf_heap \<lparr>A = [\<lparr>element = 7, priority = 7\<rparr>, \<lparr>element = 8, priority = 9\<rparr>], hCapacity = 2, hSize = 2\<rparr>
   \<and> wf_heap \<lparr>A = [\<lparr>element = 1, priority = 2\<rparr>, \<lparr>element = 0, priority = 0\<rparr>], hCapacity = 2, hSize = 1\<rparr>
   \<and> (\<exists>h. Heap_merge zero_junk
             \<lparr>A = [\<lparr>element = 7, priority = 7\<rparr>, \<lparr>element = 8, priority = 9\<rparr>], hCapacity = 2, hSize = 2\<rparr>
             \<lparr>A = [\<lparr>element = 1, priority = 2\<rparr>, \<lparr>element = 0, priority = 0\<rparr>], hCapacity = 2, hSize = 1\<rparr>
             1 = Inr h
           \<and> mset (entries h) = {#\<lparr>element = 7, priority = 7\<rparr>, \<lparr>element = 8, priority = 9\<rparr>,
                                    \<lparr>element = 1, priority = 2\<rparr>#}
           \<and> size_heap h = 3 \<and> capacity h = 4 \<and> heap_order h \<and> wf_heap h)"
proof -
  let ?h1 = "\<lparr>A = [\<lparr>element = 7, priority = 7\<rparr>, \<lparr>element = 8, priority = 9\<rparr>], hCapacity = 2, hSize = 2\<rparr>"
  let ?h2 = "\<lparr>A = [\<lparr>element = 1, priority = 2\<rparr>, \<lparr>element = 0, priority = 0\<rparr>], hCapacity = 2, hSize = 1\<rparr>"
  have w1: "wf_heap ?h1" by (simp add: wf_heap_def)
  have w2: "wf_heap ?h2" by (simp add: wf_heap_def)
  have b: "hSize ?h1 + hSize ?h2 + 1 \<le> INT_MAX" "hSize ?h1 + hSize ?h2 \<le> 1073741824"
    by (simp_all add: INT_MAX_def)
  have e: "mset (entries ?h1) + mset (entries ?h2)
      = {#\<lparr>element = 7, priority = 7\<rparr>, \<lparr>element = 8, priority = 9\<rparr>, \<lparr>element = 1, priority = 2\<rparr>#}"
    by (simp add: entries_def)
  from merge_correct[OF w1 w2 _ b, of zero_junk] obtain h where
    "Heap_merge zero_junk ?h1 ?h2 1 = Inr h"
    "mset (entries h) = mset (entries ?h1) + mset (entries ?h2)"
    "size_heap h = size_heap ?h1 + size_heap ?h2"
    "capacity h = size_heap ?h1 + size_heap ?h2 + 1" "heap_order h" "wf_heap h"
    by auto
  then have "Heap_merge zero_junk ?h1 ?h2 1 = Inr h
      \<and> mset (entries h) = {#\<lparr>element = 7, priority = 7\<rparr>, \<lparr>element = 8, priority = 9\<rparr>,
                                    \<lparr>element = 1, priority = 2\<rparr>#}
      \<and> size_heap h = 3 \<and> capacity h = 4 \<and> heap_order h \<and> wf_heap h"
    using e by (simp add: size_heap_def)
  then show ?thesis using w1 w2 by blast
qed

subsection \<open>The case analysis of trickleDown\<close>

text \<open>
  Claim C8 gives the case analysis of sift-down at a node \<open>i\<close>, starting with: if neither
  child index is below the size, stop. Counterexample: in a heap with \<open>2^30\<close> entries the
  last node, \<open>i = 2^30 - 1\<close>, has no child, but \<^verbatim>\<open>trickleDown(i)\<close> first computes
  \<^verbatim>\<open>(2 * i) + 2\<close>, which is \<open>2^31\<close>, outside the range of a 32-bit int.
\<close>

theorem trickleDown_last_node_counterexample:
  "wf_heap \<lparr>A = replicate 1073741824 \<lparr>element = 0, priority = 0\<rparr>,
            hCapacity = 1073741824, hSize = 1073741824\<rparr>
   \<and> trickleDown \<lparr>A = replicate 1073741824 \<lparr>element = 0, priority = 0\<rparr>,
            hCapacity = 1073741824, hSize = 1073741824\<rparr> 1073741823 = Inl SignedOverflow"
proof -
  have "trickleDown \<lparr>A = replicate 1073741824 \<lparr>element = 0, priority = 0\<rparr>,
            hCapacity = 1073741824, hSize = 1073741824\<rparr> 1073741823 = Inl SignedOverflow"
    by (subst trickleDown.simps) (simp add: INT_MAX_def INT_MIN_def)
  then show ?thesis by (simp add: wf_heap_def)
qed

text \<open>
  Claim C8 as amended. Let \<open>i \<ge> 0\<close> be a node whose child indices \<open>2 * i + 1\<close> and
  \<open>2 * i + 2\<close> are at most \<^verbatim>\<open>INT_MAX\<close>, in a heap whose size does not exceed the
  allocated slots. Then \<^verbatim>\<open>trickleDown(i)\<close> does the following, where \<open>pri h j\<close> is
  \<^verbatim>\<open>A[j].priority\<close>: if neither child index is below the size, nothing; if only the left
  child exists, it swaps node \<open>i\<close> with it when the child's priority is strictly smaller and
  stops either way; if both children exist and the priority of \<open>i\<close> is at most both
  children's, nothing; otherwise it swaps \<open>i\<close> with the right child when the right child's
  priority is strictly smaller than the left child's, with the left child if not, and
  continues at that child. A swap exchanges the two array slots.
\<close>

theorem trickleDown_case_analysis:
  assumes "0 \<le> i" "2 * i + 2 \<le> INT_MAX" "hSize h \<le> int (length (A h))"
  shows "(hSize h \<le> 2 * i + 1 \<longrightarrow> trickleDown h i = Inr h)
    \<and> (2 * i + 1 < hSize h \<and> hSize h \<le> 2 * i + 2 \<longrightarrow>
         trickleDown h i = (if pri h (2 * i + 1) < pri h i then swap h i (2 * i + 1) else Inr h))
    \<and> (2 * i + 2 < hSize h \<and> pri h i \<le> pri h (2 * i + 1) \<and> pri h i \<le> pri h (2 * i + 2) \<longrightarrow>
         trickleDown h i = Inr h)
    \<and> (2 * i + 2 < hSize h \<and> \<not> (pri h i \<le> pri h (2 * i + 1) \<and> pri h i \<le> pri h (2 * i + 2)) \<longrightarrow>
         (\<exists>h1. swap h i (if pri h (2 * i + 2) < pri h (2 * i + 1) then 2 * i + 2 else 2 * i + 1)
                 = Inr h1
             \<and> trickleDown h i =
                 trickleDown h1 (if pri h (2 * i + 2) < pri h (2 * i + 1) then 2 * i + 2 else 2 * i + 1)))
    \<and> (\<forall>j h1. swap h i j = Inr h1 \<longrightarrow>
         h1 = h\<lparr>A := (A h)[nat i := A h ! nat j, nat j := A h ! nat i]\<rparr>)"
proof -
  note u = trickleDown_unfold[OF assms]
  have b: "in_bounds h j" if "0 \<le> j" "j < hSize h" for j
    using that assms(3) by (simp add: in_bounds_def)
  have two: "\<exists>h1. swap h i c = Inr h1" if "2 * i + 2 < hSize h" "c = 2 * i + 1 \<or> c = 2 * i + 2" for c
  proof -
    have "in_bounds h i" "in_bounds h c" using that assms(1) by (auto intro!: b)
    then show ?thesis by (rule swap_ok)
  qed
  have 4: "\<exists>h1. swap h i (if pri h (2 * i + 2) < pri h (2 * i + 1) then 2 * i + 2 else 2 * i + 1)
                 = Inr h1
             \<and> trickleDown h i =
                 trickleDown h1 (if pri h (2 * i + 2) < pri h (2 * i + 1) then 2 * i + 2 else 2 * i + 1)"
    if t: "2 * i + 2 < hSize h"
      and n: "\<not> (pri h i \<le> pri h (2 * i + 1) \<and> pri h i \<le> pri h (2 * i + 2))"
  proof (cases "pri h (2 * i + 2) < pri h (2 * i + 1)")
    case True
    from two[OF t, of "2 * i + 2"] obtain h1 where "swap h i (2 * i + 2) = Inr h1" by auto
    then show ?thesis using True t n by (auto simp: u)
  next
    case False
    from two[OF t, of "2 * i + 1"] obtain h1 where "swap h i (2 * i + 1) = Inr h1" by auto
    then show ?thesis using False t n by (auto simp: u)
  qed
  show ?thesis
  proof (intro conjI impI allI)
    show "trickleDown h i = Inr h" if "hSize h \<le> 2 * i + 1"
      using that by (simp add: u)
    show "trickleDown h i = (if pri h (2 * i + 1) < pri h i then swap h i (2 * i + 1) else Inr h)"
      if "2 * i + 1 < hSize h \<and> hSize h \<le> 2 * i + 2"
      using that by (simp add: u)
    show "trickleDown h i = Inr h"
      if "2 * i + 2 < hSize h \<and> pri h i \<le> pri h (2 * i + 1) \<and> pri h i \<le> pri h (2 * i + 2)"
      using that by (simp add: u)
    show "\<exists>h1. swap h i (if pri h (2 * i + 2) < pri h (2 * i + 1) then 2 * i + 2 else 2 * i + 1)
                 = Inr h1
             \<and> trickleDown h i =
                 trickleDown h1 (if pri h (2 * i + 2) < pri h (2 * i + 1) then 2 * i + 2 else 2 * i + 1)"
      if "2 * i + 2 < hSize h \<and> \<not> (pri h i \<le> pri h (2 * i + 1) \<and> pri h i \<le> pri h (2 * i + 2))"
      using that 4 by blast
    show "h1 = h\<lparr>A := (A h)[nat i := A h ! nat j, nat j := A h ! nat i]\<rparr>"
      if "swap h i j = Inr h1" for j h1
      using that by (rule swap_Inr(3))
  qed
qed

theorem trickleDown_case_analysis_witness:
  "trickleDown \<lparr>A = [\<lparr>element = 1, priority = 1\<rparr>], hCapacity = 1, hSize = 1\<rparr> 0
     = Inr \<lparr>A = [\<lparr>element = 1, priority = 1\<rparr>], hCapacity = 1, hSize = 1\<rparr>
   \<and> trickleDown \<lparr>A = [\<lparr>element = 1, priority = 5\<rparr>, \<lparr>element = 2, priority = 3\<rparr>],
          hCapacity = 2, hSize = 2\<rparr> 0
     = Inr \<lparr>A = [\<lparr>element = 2, priority = 3\<rparr>, \<lparr>element = 1, priority = 5\<rparr>],
          hCapacity = 2, hSize = 2\<rparr>
   \<and> trickleDown \<lparr>A = [\<lparr>element = 1, priority = 1\<rparr>, \<lparr>element = 2, priority = 2\<rparr>,
            \<lparr>element = 3, priority = 3\<rparr>], hCapacity = 3, hSize = 3\<rparr> 0
     = Inr \<lparr>A = [\<lparr>element = 1, priority = 1\<rparr>, \<lparr>element = 2, priority = 2\<rparr>,
            \<lparr>element = 3, priority = 3\<rparr>], hCapacity = 3, hSize = 3\<rparr>
   \<and> trickleDown \<lparr>A = [\<lparr>element = 1, priority = 9\<rparr>, \<lparr>element = 2, priority = 5\<rparr>,
            \<lparr>element = 3, priority = 3\<rparr>], hCapacity = 3, hSize = 3\<rparr> 0
     = Inr \<lparr>A = [\<lparr>element = 3, priority = 3\<rparr>, \<lparr>element = 2, priority = 5\<rparr>,
            \<lparr>element = 1, priority = 9\<rparr>], hCapacity = 3, hSize = 3\<rparr>
   \<and> trickleDown \<lparr>A = [\<lparr>element = 1, priority = 9\<rparr>, \<lparr>element = 2, priority = 4\<rparr>,
            \<lparr>element = 3, priority = 4\<rparr>], hCapacity = 3, hSize = 3\<rparr> 0
     = Inr \<lparr>A = [\<lparr>element = 2, priority = 4\<rparr>, \<lparr>element = 1, priority = 9\<rparr>,
            \<lparr>element = 3, priority = 4\<rparr>], hCapacity = 3, hSize = 3\<rparr>"
proof -
  let ?H1 = "\<lparr>A = [\<lparr>element = 1, priority = 1\<rparr>], hCapacity = 1, hSize = 1\<rparr>"
  let ?H2 = "\<lparr>A = [\<lparr>element = 1, priority = 5\<rparr>, \<lparr>element = 2, priority = 3\<rparr>],
          hCapacity = 2, hSize = 2\<rparr>"
  let ?H3 = "\<lparr>A = [\<lparr>element = 1, priority = 1\<rparr>, \<lparr>element = 2, priority = 2\<rparr>,
            \<lparr>element = 3, priority = 3\<rparr>], hCapacity = 3, hSize = 3\<rparr>"
  let ?H4 = "\<lparr>A = [\<lparr>element = 1, priority = 9\<rparr>, \<lparr>element = 2, priority = 5\<rparr>,
            \<lparr>element = 3, priority = 3\<rparr>], hCapacity = 3, hSize = 3\<rparr>"
  let ?H4' = "\<lparr>A = [\<lparr>element = 3, priority = 3\<rparr>, \<lparr>element = 2, priority = 5\<rparr>,
            \<lparr>element = 1, priority = 9\<rparr>], hCapacity = 3, hSize = 3\<rparr>"
  let ?H5 = "\<lparr>A = [\<lparr>element = 1, priority = 9\<rparr>, \<lparr>element = 2, priority = 4\<rparr>,
            \<lparr>element = 3, priority = 4\<rparr>], hCapacity = 3, hSize = 3\<rparr>"
  let ?H5' = "\<lparr>A = [\<lparr>element = 2, priority = 4\<rparr>, \<lparr>element = 1, priority = 9\<rparr>,
            \<lparr>element = 3, priority = 4\<rparr>], hCapacity = 3, hSize = 3\<rparr>"
  have 1: "trickleDown ?H1 0 = Inr ?H1"
    using trickleDown_case_analysis[of 0 ?H1] by (simp add: INT_MAX_def)
  have 2: "trickleDown ?H2 0 = Inr \<lparr>A = [\<lparr>element = 2, priority = 3\<rparr>, \<lparr>element = 1, priority = 5\<rparr>],
          hCapacity = 2, hSize = 2\<rparr>"
    using trickleDown_case_analysis[of 0 ?H2]
    by (simp add: INT_MAX_def pri_def swap_def in_bounds_def)
  have 3: "trickleDown ?H3 0 = Inr ?H3"
    using trickleDown_case_analysis[of 0 ?H3] by (simp add: INT_MAX_def pri_def)
  have s4: "swap ?H4 0 2 = Inr ?H4'" by (simp add: swap_def in_bounds_def)
  have "trickleDown ?H4 0 = trickleDown ?H4' 2"
    using trickleDown_case_analysis[of 0 ?H4] s4 by (simp add: INT_MAX_def pri_def)
  moreover have "trickleDown ?H4' 2 = Inr ?H4'"
    using trickleDown_case_analysis[of 2 ?H4'] by (simp add: INT_MAX_def)
  ultimately have 4: "trickleDown ?H4 0 = Inr ?H4'" by simp
  have s5: "swap ?H5 0 1 = Inr ?H5'" by (simp add: swap_def in_bounds_def)
  have "trickleDown ?H5 0 = trickleDown ?H5' 1"
    using trickleDown_case_analysis[of 0 ?H5] s5 by (simp add: INT_MAX_def pri_def)
  moreover have "trickleDown ?H5' 1 = Inr ?H5'"
    using trickleDown_case_analysis[of 1 ?H5'] by (simp add: INT_MAX_def)
  ultimately have 5: "trickleDown ?H5 0 = Inr ?H5'" by simp
  show ?thesis using 1 2 3 4 5 by (intro conjI)
qed

subsection \<open>Termination\<close>

text \<open>
  Claim C9. The recursions of \<^verbatim>\<open>trickleUp\<close> and \<^verbatim>\<open>trickleDown\<close>, the loop of
  \<^verbatim>\<open>heapify\<close> and the loop of the constructor from two arrays terminate on every input:
  every argument is in the accessible part of the relation "is called by" of the function.
  A recursive call of \<^verbatim>\<open>trickleUp(i)\<close> has an index \<open>j\<close> with \<open>0 \<le> j < i\<close>; a recursive
  call of \<^verbatim>\<open>trickleDown(i)\<close> has an index \<open>j\<close> with \<open>i < j < hSize\<close>, and the size is
  unchanged; each round of the loop of \<^verbatim>\<open>heapify\<close> decreases its counter \<open>i \<ge> 0\<close> by one.
  On inputs that satisfy the preconditions (indices inside the array, a size that does not
  exceed the allocated slots nor \<open>2^30\<close>, child indices representable as int) the three
  functions return a heap.
\<close>

theorem recursion_terminates:
  "trickleUp_dom (h, i) \<and> trickleDown_dom (h, i) \<and> heapify_loop_dom (h, i)
   \<and> arrays_loop_dom (Priorities, Elements, s, k, h)
   \<and> (trickleUp_rel (gu', ju) (gu, iu) \<longrightarrow> 0 \<le> ju \<and> ju < iu)
   \<and> (trickleDown_rel (gd', jd) (gd, idx) \<longrightarrow> idx < jd \<and> jd < hSize gd \<and> hSize gd' = hSize gd)
   \<and> (heapify_loop_rel (gl', jl) (gl, il) \<longrightarrow> 0 \<le> il \<and> jl = il - 1)
   \<and> (in_bounds h i \<longrightarrow> (\<exists>h'. trickleUp h i = Inr h'))
   \<and> (0 \<le> i \<and> 2 * i + 2 \<le> INT_MAX \<and> hSize h \<le> 1073741824 \<and> hSize h \<le> int (length (A h))
        \<longrightarrow> (\<exists>h'. trickleDown h i = Inr h'))
   \<and> (0 \<le> hSize h \<and> hSize h \<le> 1073741824 \<and> hSize h \<le> int (length (A h))
        \<longrightarrow> (\<exists>h'. heapify h = Inr h'))"
proof -
  have ur: "0 \<le> ju \<and> ju < iu" if "trickleUp_rel (gu', ju) (gu, iu)" for gu' ju gu iu
    using that
    by (cases rule: trickleUp_rel.cases) (auto simp: in_bounds_def c_div_def split: if_splits)
  have dr: "idx < jd \<and> jd < hSize gd \<and> hSize gd' = hSize gd"
    if "trickleDown_rel (gd', jd) (gd, idx)" for gd' jd gd idx
    using that
    by (cases rule: trickleDown_rel.cases) (auto simp: in_bounds_def dest: swap_fields(1))
  have lr: "0 \<le> il \<and> jl = il - 1" if "heapify_loop_rel (gl', jl) (gl, il)" for gl' jl gl il
    using that by (cases rule: heapify_loop_rel.cases) auto
  have ar: "s' = s \<and> k' = k + 1 \<and> k < s"
    if "arrays_loop_rel (P', E', s', k', g') (P, E, s, k, g)" for P' E' s' k' g' P E s k g
    using that by (cases rule: arrays_loop_rel.cases) auto
  have u: "trickleUp_dom (g, j)" for g j
  proof (induction "nat j" arbitrary: g j rule: less_induct)
    case less
    show ?case
    proof (rule accpI)
      fix y assume r: "trickleUp_rel y (g, j)"
      obtain g' j' where y: "y = (g', j')" by (cases y)
      from ur[of g' j' g j] r have "nat j' < nat j" by (simp add: y)
      from less.hyps[OF this] show "trickleUp_dom y" by (simp add: y)
    qed
  qed
  have d: "trickleDown_dom (g, j)" for g j
  proof (induction "nat (hSize g - j)" arbitrary: g j rule: less_induct)
    case less
    show ?case
    proof (rule accpI)
      fix y assume r: "trickleDown_rel y (g, j)"
      obtain g' j' where y: "y = (g', j')" by (cases y)
      from dr[of g' j' g j] r have "nat (hSize g' - j') < nat (hSize g - j)" by (simp add: y)
      from less.hyps[OF this] show "trickleDown_dom y" by (simp add: y)
    qed
  qed
  have l: "heapify_loop_dom (g, j)" for g j
  proof (induction "nat (j + 1)" arbitrary: g j rule: less_induct)
    case less
    show ?case
    proof (rule accpI)
      fix y assume r: "heapify_loop_rel y (g, j)"
      obtain g' j' where y: "y = (g', j')" by (cases y)
      from lr[of g' j' g j] r have "nat (j' + 1) < nat (j + 1)" by (simp add: y)
      from less.hyps[OF this] show "heapify_loop_dom y" by (simp add: y)
    qed
  qed
  have a: "arrays_loop_dom (P, E, n, j, g)" for P E n j g
  proof (induction "nat (n - j)" arbitrary: P E n j g rule: less_induct)
    case less
    show ?case
    proof (rule accpI)
      fix y assume r: "arrays_loop_rel y (P, E, n, j, g)"
      obtain P' E' n' j' g' where y: "y = (P', E', n', j', g')" by (cases y)
      from ar[of P' E' n' j' g' P E n j g] r have "nat (n' - j') < nat (n - j)" by (simp add: y)
      from less.hyps[OF this] show "arrays_loop_dom y" by (simp add: y)
    qed
  qed
  have su: "in_bounds h i \<longrightarrow> (\<exists>h'. trickleUp h i = Inr h')"
    using trickleUp_succeeds[of h i] by blast
  have sd: "0 \<le> i \<and> 2 * i + 2 \<le> INT_MAX \<and> hSize h \<le> 1073741824 \<and> hSize h \<le> int (length (A h))
        \<longrightarrow> (\<exists>h'. trickleDown h i = Inr h')"
    using trickleDown_succeeds[of i h] by blast
  have sh: "0 \<le> hSize h \<and> hSize h \<le> 1073741824 \<and> hSize h \<le> int (length (A h))
        \<longrightarrow> (\<exists>h'. heapify h = Inr h')"
    using heapify_succeeds[of h] by blast
  have r1: "trickleUp_rel (gu', ju) (gu, iu) \<longrightarrow> 0 \<le> ju \<and> ju < iu"
    using ur by blast
  have r2: "trickleDown_rel (gd', jd) (gd, idx) \<longrightarrow> idx < jd \<and> jd < hSize gd \<and> hSize gd' = hSize gd"
    using dr by blast
  have r3: "heapify_loop_rel (gl', jl) (gl, il) \<longrightarrow> 0 \<le> il \<and> jl = il - 1"
    using lr by blast
  show ?thesis
    using u[of h i] d[of h i] l[of h i] a[of Priorities Elements s k h] r1 r2 r3 su sd sh
    by (intro conjI)
qed

theorem recursion_terminates_witness:
  "trickleUp_rel
     (\<lparr>A = [\<lparr>element = 2, priority = 3\<rparr>, \<lparr>element = 1, priority = 5\<rparr>], hCapacity = 2, hSize = 2\<rparr>, 0)
     (\<lparr>A = [\<lparr>element = 1, priority = 5\<rparr>, \<lparr>element = 2, priority = 3\<rparr>], hCapacity = 2, hSize = 2\<rparr>, 1)
   \<and> trickleDown_rel
     (\<lparr>A = [\<lparr>element = 3, priority = 3\<rparr>, \<lparr>element = 2, priority = 5\<rparr>,
            \<lparr>element = 1, priority = 9\<rparr>], hCapacity = 3, hSize = 3\<rparr>, 2)
     (\<lparr>A = [\<lparr>element = 1, priority = 9\<rparr>, \<lparr>element = 2, priority = 5\<rparr>,
            \<lparr>element = 3, priority = 3\<rparr>], hCapacity = 3, hSize = 3\<rparr>, 0)
   \<and> heapify_loop_rel
     (\<lparr>A = [\<lparr>element = 1, priority = 9\<rparr>, \<lparr>element = 2, priority = 5\<rparr>,
            \<lparr>element = 3, priority = 3\<rparr>], hCapacity = 3, hSize = 3\<rparr>, 0)
     (\<lparr>A = [\<lparr>element = 1, priority = 9\<rparr>, \<lparr>element = 2, priority = 5\<rparr>,
            \<lparr>element = 3, priority = 3\<rparr>], hCapacity = 3, hSize = 3\<rparr>, 1)
   \<and> trickleUp_dom (\<lparr>A = [\<lparr>element = 1, priority = 9\<rparr>, \<lparr>element = 2, priority = 5\<rparr>,
            \<lparr>element = 3, priority = 3\<rparr>], hCapacity = 3, hSize = 3\<rparr>, 1)
   \<and> trickleDown_dom (\<lparr>A = [\<lparr>element = 1, priority = 9\<rparr>, \<lparr>element = 2, priority = 5\<rparr>,
            \<lparr>element = 3, priority = 3\<rparr>], hCapacity = 3, hSize = 3\<rparr>, 1)
   \<and> (\<exists>h'. trickleUp \<lparr>A = [\<lparr>element = 1, priority = 9\<rparr>, \<lparr>element = 2, priority = 5\<rparr>,
            \<lparr>element = 3, priority = 3\<rparr>], hCapacity = 3, hSize = 3\<rparr> 1 = Inr h')
   \<and> (\<exists>h'. trickleDown \<lparr>A = [\<lparr>element = 1, priority = 9\<rparr>, \<lparr>element = 2, priority = 5\<rparr>,
            \<lparr>element = 3, priority = 3\<rparr>], hCapacity = 3, hSize = 3\<rparr> 1 = Inr h')
   \<and> (\<exists>h'. heapify \<lparr>A = [\<lparr>element = 1, priority = 9\<rparr>, \<lparr>element = 2, priority = 5\<rparr>,
            \<lparr>element = 3, priority = 3\<rparr>], hCapacity = 3, hSize = 3\<rparr> = Inr h')"
proof -
  let ?U = "\<lparr>A = [\<lparr>element = 1, priority = 5\<rparr>, \<lparr>element = 2, priority = 3\<rparr>], hCapacity = 2, hSize = 2\<rparr>"
  let ?U' = "\<lparr>A = [\<lparr>element = 2, priority = 3\<rparr>, \<lparr>element = 1, priority = 5\<rparr>], hCapacity = 2, hSize = 2\<rparr>"
  let ?D = "\<lparr>A = [\<lparr>element = 1, priority = 9\<rparr>, \<lparr>element = 2, priority = 5\<rparr>,
            \<lparr>element = 3, priority = 3\<rparr>], hCapacity = 3, hSize = 3\<rparr>"
  let ?D' = "\<lparr>A = [\<lparr>element = 3, priority = 3\<rparr>, \<lparr>element = 2, priority = 5\<rparr>,
            \<lparr>element = 1, priority = 9\<rparr>], hCapacity = 3, hSize = 3\<rparr>"
  have c: "c_div 0 2 = 0" by (simp add: c_div_def)
  have "trickleUp_rel (?U', c_div (1 - 1) 2) (?U, 1)"
    by (rule trickleUp_rel.intros) (simp_all add: c in_bounds_def swap_def)
  then have 1: "trickleUp_rel (?U', 0) (?U, 1)" by (simp add: c)
  have 2: "trickleDown_rel (?D', 2) (?D, 0)"
    by (rule trickleDown_rel.intros(1)[where x = 1])
       (simp_all add: INT_MIN_def INT_MAX_def in_bounds_def swap_def)
  have "trickleDown ?D 1 = Inr ?D" by (subst trickleDown.simps) (simp add: INT_MIN_def INT_MAX_def)
  then have "heapify_loop_rel (?D, 1 - 1) (?D, 1)"
    by (intro heapify_loop_rel.intros) simp_all
  then have 3: "heapify_loop_rel (?D, 0) (?D, 1)" by simp
  note T = recursion_terminates[where h = ?D and i = 1 and gu' = ?U' and ju = 0 and gu = ?U
      and iu = 1 and gd' = ?D' and jd = 2 and gd = ?D and idx = 0 and gl' = ?D and jl = 0
      and gl = ?D and il = 1]
  have b: "in_bounds ?D 1" "hSize ?D \<le> 1073741824" "hSize ?D \<le> int (length (A ?D))"
    "2 * 1 + 2 \<le> INT_MAX"
    by (simp_all add: in_bounds_def INT_MAX_def)
  show ?thesis using 1 2 3 T b by simp
qed

subsection \<open>What insert leaves unchanged\<close>

text \<open>
  Claim C10. On every heap whose size is below its capacity (the number of allocated
  slots), \<^verbatim>\<open>insert\<close> succeeds, keeps the capacity and the array length, and every array slot
  other than the old size and its proper ancestors (under \<open>parent i = (i - 1) div 2\<close>)
  holds the same entry as before.
\<close>

theorem insert_frame:
  assumes "0 \<le> hSize h" "hSize h < hCapacity h" "hCapacity h = int (length (A h))"
  shows "\<exists>h'. insert_heap h e p = Inr h'
           \<and> capacity h' = capacity h \<and> length (A h') = length (A h)
           \<and> (\<forall>k. 0 \<le> k \<and> k < hCapacity h \<and> k \<noteq> hSize h \<and> k \<notin> set (ancestors (hSize h))
                  \<longrightarrow> A h' ! nat k = A h ! nat k)"
proof -
  let ?n = "hSize h"
  let ?h1 = "h\<lparr>A := (A h)[nat ?n := \<lparr>element = e, priority = p\<rparr>]\<rparr>"
  have b: "in_bounds h ?n" using assms by (simp add: in_bounds_def)
  from insert_heap_succeeds[OF b] obtain h' where i: "insert_heap h e p = Inr h'" ..
  from i obtain h2 where t: "trickleUp ?h1 ?n = Inr h2" and h': "h' = h2\<lparr>hSize := hSize h2 + 1\<rparr>"
    by (rule insert_heap_Inr)
  note f = insert_heap_fields[OF i]
  have "A h' ! nat k = A h ! nat k"
    if k: "0 \<le> k \<and> k < hCapacity h \<and> k \<noteq> ?n \<and> k \<notin> set (ancestors ?n)" for k
  proof -
    have "A h2 ! nat k = A ?h1 ! nat k"
      using trickleUp_frame[OF t, of k] k by simp
    moreover have "A ?h1 ! nat k = A h ! nat k" using k assms(1) by (simp add: eq_nat_nat_iff)
    ultimately show ?thesis by (simp add: h')
  qed
  then show ?thesis using i f by (auto simp: capacity_def)
qed

theorem insert_frame_witness:
  "\<exists>h'. insert_heap
        \<lparr>A = [\<lparr>element = 1, priority = 1\<rparr>, \<lparr>element = 2, priority = 2\<rparr>,
              \<lparr>element = 3, priority = 3\<rparr>, \<lparr>element = 0, priority = 0\<rparr>,
              \<lparr>element = 8, priority = 8\<rparr>], hCapacity = 5, hSize = 3\<rparr> 9 0 = Inr h'
      \<and> capacity h' = 5 \<and> length (A h') = 5
      \<and> A h' ! 2 = \<lparr>element = 3, priority = 3\<rparr> \<and> A h' ! 4 = \<lparr>element = 8, priority = 8\<rparr>"
proof -
  let ?H = "\<lparr>A = [\<lparr>element = 1, priority = 1\<rparr>, \<lparr>element = 2, priority = 2\<rparr>,
              \<lparr>element = 3, priority = 3\<rparr>, \<lparr>element = 0, priority = 0\<rparr>,
              \<lparr>element = 8, priority = 8\<rparr>], hCapacity = 5, hSize = 3\<rparr>"
  have a: "ancestors 3 = [1, 0]" by (simp add: ancestors.simps parent_def)
  from insert_frame[of ?H 9 0] obtain h' where h': "insert_heap ?H 9 0 = Inr h'"
    "capacity h' = capacity ?H" "length (A h') = length (A ?H)"
    "\<And>k. 0 \<le> k \<and> k < hCapacity ?H \<and> k \<noteq> hSize ?H \<and> k \<notin> set (ancestors (hSize ?H))
          \<Longrightarrow> A h' ! nat k = A ?H ! nat k"
    by auto
  have "A h' ! nat 2 = A ?H ! nat 2" "A h' ! nat 4 = A ?H ! nat 4"
    by (rule h'(4), simp add: a)+
  then have "insert_heap ?H 9 0 = Inr h' \<and> capacity h' = 5 \<and> length (A h') = 5
      \<and> A h' ! 2 = \<lparr>element = 3, priority = 3\<rparr> \<and> A h' ! 4 = \<lparr>element = 8, priority = 8\<rparr>"
    using h'(1,2,3) by (simp add: capacity_def)
  then show ?thesis ..
qed

end
